theory Spec2Isabelle
  imports Complex_Main "HOL-Library.AList"
begin

section \<open>The centroid tracker (backend/tracker.py)\<close>

subsection \<open>Data\<close>

text \<open>
  A bounding box is the Python tuple \<open>(x, y, w, h)\<close> of integers. The two ordered
  dictionaries of \<open>CentroidTracker\<close>, \<open>objects\<close> (id to box) and \<open>disappeared\<close>
  (id to count), are association lists in insertion order: storing under a key that is
  present keeps the key's place, storing under a new key appends, \<open>pop\<close> deletes.
\<close>

type_synonym rect = "int \<times> int \<times> int \<times> int"

datatype error = KeyError | IndexError | ZeroDivisionError | RuntimeError string | HTTPException string

text \<open>
  A call that may raise returns \<open>error + 'a\<close>; \<open>bind\<close> runs the rest of the body when
  nothing was raised, and \<open>for_each\<close> is a \<open>for\<close> loop whose body may raise.
\<close>

definition bind :: "error + 'a \<Rightarrow> ('a \<Rightarrow> error + 'b) \<Rightarrow> error + 'b" where
  "bind m f = (case m of Inl e \<Rightarrow> Inl e | Inr x \<Rightarrow> f x)"

fun for_each :: "('a \<Rightarrow> 's \<Rightarrow> error + 's) \<Rightarrow> 'a list \<Rightarrow> 's \<Rightarrow> error + 's" where
  "for_each body [] s = Inr s"
| "for_each body (x # xs) s = bind (body x s) (for_each body xs)"

definition item :: "'a list \<Rightarrow> nat \<Rightarrow> error + 'a" where
  "item xs i = (if i < length xs then Inr (xs ! i) else Inl IndexError)"

record centroid_tracker =
  next_object_id :: int
  objects :: "(int \<times> rect) list"
  disappeared :: "(int \<times> int) list"
  max_disappeared :: int
  max_distance :: real

definition CentroidTracker :: "int \<Rightarrow> real \<Rightarrow> centroid_tracker" where
  "CentroidTracker md mdist =
     \<lparr>next_object_id = 0, objects = [], disappeared = [],
      max_disappeared = md, max_distance = mdist\<rparr>"

subsection \<open>Centroids and distances\<close>

text \<open>
  \<open>int(x + w / 2)\<close>: Python's \<open>/\<close> is true division and \<open>int\<close> truncates toward
  zero. The float is modelled by the real number it stands for, which is exact for pixel
  coordinates (integers and halves far below \<open>2^53\<close>).
\<close>

definition py_int :: "real \<Rightarrow> int" where
  "py_int r = (if 0 \<le> r then \<lfloor>r\<rfloor> else \<lceil>r\<rceil>)"

definition centroid :: "rect \<Rightarrow> int \<times> int" where
  "centroid = (\<lambda>(x, y, w, h).
     (py_int (of_int x + of_int w / 2), py_int (of_int y + of_int h / 2)))"

definition compute_centroids :: "rect list \<Rightarrow> (int \<times> int) list" where
  "compute_centroids rects = map centroid rects"

text \<open>
  \<open>np.linalg.norm(diff, axis=2)\<close> of the integer centroid differences: the Euclidean
  distance, a float modelled by the real number it rounds. Squared pixel distances are
  integers far below \<open>2^53\<close>, where the rounded square root keeps both order and ties.
\<close>

definition euclid :: "int \<times> int \<Rightarrow> int \<times> int \<Rightarrow> real" where
  "euclid a b = sqrt (of_int ((fst a - fst b)\<^sup>2 + (snd a - snd b)\<^sup>2))"

definition pairwise_distances :: "(int \<times> int) list \<Rightarrow> (int \<times> int) list \<Rightarrow> real list list" where
  "pairwise_distances a b = map (\<lambda>p. map (\<lambda>q. euclid p q) b) a"

text \<open>
  \<open>distances.argmin(axis=1)\<close> gives, for a row, the first index of its minimum (numpy
  documents the first occurrence). Like \<open>min_list\<close> for \<open>distances.min(axis=1)\<close> it
  is used on non-empty rows only, \<open>update\<close> having returned before when there is no
  detection.
\<close>

fun argmin :: "'a::linorder list \<Rightarrow> nat" where
  "argmin (x # xs) = (case xs of [] \<Rightarrow> 0 | _ \<Rightarrow> if x \<le> min_list xs then 0 else Suc (argmin xs))"

text \<open>
  Modelled from the spec: numpy's \<open>argsort\<close>, which is not part of the repository. It
  lists the indices in ascending order of their keys. The spec has equal keys in the
  order of the indices themselves (\<open>stable iteration order of rows\<close>), and
  \<open>argsort\<close> is that stable sort; numpy's default sort kind promises no order between
  equal keys, so where that order matters the sort is a parameter of the model, see
  \<open>update_by\<close> below.
\<close>

definition argsort :: "'a::linorder list \<Rightarrow> nat list" where
  "argsort ks = sort_key (\<lambda>i. ks ! i) [0..<length ks]"

subsection \<open>Registering, deregistering, updating\<close>

definition register :: "rect \<Rightarrow> centroid_tracker \<Rightarrow> centroid_tracker" where
  "register rect t =
     t\<lparr>objects := AList.update (next_object_id t) rect (objects t),
       disappeared := AList.update (next_object_id t) 0 (disappeared t),
       next_object_id := next_object_id t + 1\<rparr>"

definition deregister :: "int \<Rightarrow> centroid_tracker \<Rightarrow> centroid_tracker" where
  "deregister object_id t =
     t\<lparr>objects := AList.delete object_id (objects t),
       disappeared := AList.delete object_id (disappeared t)\<rparr>"

text \<open>
  The body shared by the two ageing loops: \<open>self.disappeared[object_id] += 1\<close>, which
  raises \<open>KeyError\<close> on a missing key, then the test against \<open>max_disappeared\<close>.
\<close>

definition mark_disappeared :: "int \<Rightarrow> centroid_tracker \<Rightarrow> error + centroid_tracker" where
  "mark_disappeared object_id t =
     (case map_of (disappeared t) object_id of
        None \<Rightarrow> Inl KeyError
      | Some n \<Rightarrow>
          let t' = t\<lparr>disappeared := AList.update object_id (n + 1) (disappeared t)\<rparr>
          in Inr (if n + 1 > max_disappeared t' then deregister object_id t' else t'))"

text \<open>
  The body of the loop over \<open>zip(rows, cols)\<close>; the loop state is the tracker with the
  two sets \<open>assigned_rows\<close> and \<open>assigned_cols\<close>.
\<close>

definition assign_step ::
  "real list list \<Rightarrow> int list \<Rightarrow> rect list \<Rightarrow> nat \<times> nat \<Rightarrow>
   centroid_tracker \<times> nat set \<times> nat set \<Rightarrow> error + (centroid_tracker \<times> nat set \<times> nat set)" where
  "assign_step distances object_ids rects rc s =
     (case rc of (row, col) \<Rightarrow> case s of (t, assigned_rows, assigned_cols) \<Rightarrow>
        if row \<in> assigned_rows \<or> col \<in> assigned_cols then Inr s
        else bind (bind (item distances row) (\<lambda>r. item r col)) (\<lambda>d.
          if d > max_distance t then Inr s
          else bind (item object_ids row) (\<lambda>object_id.
               bind (item rects col) (\<lambda>rect.
                 Inr (t\<lparr>objects := AList.update object_id rect (objects t),
                        disappeared := AList.update object_id 0 (disappeared t)\<rparr>,
                      insert row assigned_rows, insert col assigned_cols)))))"

definition disappear_row :: "int list \<Rightarrow> nat \<Rightarrow> centroid_tracker \<Rightarrow> error + centroid_tracker" where
  "disappear_row object_ids row t = bind (item object_ids row) (\<lambda>object_id. mark_disappeared object_id t)"

definition register_col :: "rect list \<Rightarrow> nat \<Rightarrow> centroid_tracker \<Rightarrow> error + centroid_tracker" where
  "register_col rects col t = bind (item rects col) (\<lambda>rect. Inr (register rect t))"

text \<open>
  The first lines of the matching branch of \<open>update\<close>: the matrix of distances, one
  row per tracked object in dictionary order, one column per detection, and the pairs
  \<open>zip(rows, cols)\<close> the greedy loop walks.
\<close>

definition distance_matrix :: "rect list \<Rightarrow> centroid_tracker \<Rightarrow> real list list" where
  "distance_matrix rects t =
     (let object_centroids = compute_centroids (map snd (objects t));
          input_centroids = compute_centroids rects
      in pairwise_distances object_centroids input_centroids)"

definition matching_order :: "real list list \<Rightarrow> (nat \<times> nat) list" where
  "matching_order distances =
     (let rows = argsort (map min_list distances);
          cols = map (\<lambda>row. map argmin distances ! row) rows
      in zip rows cols)"

definition greedy_pass ::
  "rect list \<Rightarrow> centroid_tracker \<Rightarrow> error + (centroid_tracker \<times> nat set \<times> nat set)" where
  "greedy_pass rects t =
     (let object_ids = map fst (objects t);
          distances = distance_matrix rects t
      in for_each (assign_step distances object_ids rects) (matching_order distances) (t, {}, {}))"

text \<open>
  \<open>update\<close> returns \<open>self.objects\<close>, a field of the tracker it leaves behind; the model
  returns that tracker. The two set differences are walked in ascending index order.
\<close>

definition update :: "rect list \<Rightarrow> centroid_tracker \<Rightarrow> error + centroid_tracker" where
  "update rects t =
     (if length rects = 0 then for_each mark_disappeared (map fst (disappeared t)) t
      else if length (objects t) = 0 then Inr (fold register rects t)
      else
        let object_ids = map fst (objects t);
            distances = distance_matrix rects t
        in bind (greedy_pass rects t)
             (\<lambda>(t1, assigned_rows, assigned_cols).
                let unassigned_rows = filter (\<lambda>row. row \<notin> assigned_rows) [0..<length distances]
                in bind (for_each (disappear_row object_ids) unassigned_rows t1)
                     (\<lambda>t2.
                        let unassigned_cols = filter (\<lambda>col. col \<notin> assigned_cols) [0..<length rects]
                        in for_each (register_col rects) unassigned_cols t2)))"

subsection \<open>The sort of numpy as a parameter\<close>

text \<open>
  \<open>distances.min(axis=1).argsort()\<close> is called with numpy's default sort kind, which
  is not stable. What numpy promises of the result \<open>srt ks\<close> is that it holds every
  index of \<open>ks\<close> once and that the keys ascend along it; \<open>argsort_spec\<close> says so.
  The matching branch of \<open>update\<close> is written once more with the sort \<open>srt\<close> as a
  parameter; \<open>matching_order\<close>, \<open>greedy_pass\<close> and \<open>update\<close> above are these
  functions at the stable \<open>argsort\<close>.
\<close>

definition argsort_spec :: "(real list \<Rightarrow> nat list) \<Rightarrow> bool" where
  "argsort_spec srt \<longleftrightarrow>
     (\<forall>ks. set (srt ks) = {0..<length ks} \<and> distinct (srt ks)
           \<and> sorted (map (\<lambda>i. ks ! i) (srt ks)))"

definition matching_order_by :: "(real list \<Rightarrow> nat list) \<Rightarrow> real list list \<Rightarrow> (nat \<times> nat) list" where
  "matching_order_by srt distances =
     (let rows = srt (map min_list distances);
          cols = map (\<lambda>row. map argmin distances ! row) rows
      in zip rows cols)"

definition greedy_pass_by ::
  "(real list \<Rightarrow> nat list) \<Rightarrow> rect list \<Rightarrow> centroid_tracker \<Rightarrow>
   error + (centroid_tracker \<times> nat set \<times> nat set)" where
  "greedy_pass_by srt rects t =
     (let object_ids = map fst (objects t);
          distances = distance_matrix rects t
      in for_each (assign_step distances object_ids rects) (matching_order_by srt distances) (t, {}, {}))"

definition update_by ::
  "(real list \<Rightarrow> nat list) \<Rightarrow> rect list \<Rightarrow> centroid_tracker \<Rightarrow> error + centroid_tracker" where
  "update_by srt rects t =
     (if length rects = 0 then for_each mark_disappeared (map fst (disappeared t)) t
      else if length (objects t) = 0 then Inr (fold register rects t)
      else
        let object_ids = map fst (objects t);
            distances = distance_matrix rects t
        in bind (greedy_pass_by srt rects t)
             (\<lambda>(t1, assigned_rows, assigned_cols).
                let unassigned_rows = filter (\<lambda>row. row \<notin> assigned_rows) [0..<length distances]
                in bind (for_each (disappear_row object_ids) unassigned_rows t1)
                     (\<lambda>t2.
                        let unassigned_cols = filter (\<lambda>col. col \<notin> assigned_cols) [0..<length rects]
                        in for_each (register_col rects) unassigned_cols t2)))"

text \<open>
  A sort that meets \<open>argsort_spec\<close> and puts equal keys in descending index order. On
  the keys \<open>[200, 300, 10, 10]\<close> it gives \<open>[3, 2, 0, 1]\<close>, which is what numpy's
  default \<open>argsort\<close> returns for them.
\<close>

definition argsort_ties_last :: "real list \<Rightarrow> nat list" where
  "argsort_ties_last ks = rev (sort_key (\<lambda>i. - (ks ! i)) [0..<length ks])"

section \<open>The vision pipeline (backend/vision.py, backend/main.py)\<close>

subsection \<open>Collaborators\<close>

text \<open>
  A frame is its shape and an opaque identifier of its pixels. The camera is whether it is
  opened and the results its coming \<open>read()\<close> calls will give, each a pair of \<open>ret\<close>
  and a frame or \<open>None\<close>; a camera with nothing left to give reads \<open>(False, None)\<close>.
  The face detector gives, for a frame, the relative boxes \<open>(xmin, ymin, width, height)\<close>
  of \<open>results.detections or []\<close>. The FER model, called on the crop of a frame,
  raises or returns a list of faces, each with its \<open>emotions\<close> dictionary.
\<close>

record frame =
  image_h :: nat
  image_w :: nat
  pixels :: nat

record camera =
  isOpened :: bool
  frames :: "(bool \<times> frame option) list"

definition read :: "camera \<Rightarrow> (bool \<times> frame option) \<times> camera" where
  "read c = (case frames c of [] \<Rightarrow> ((False, None), c) | r # rs \<Rightarrow> (r, c\<lparr>frames := rs\<rparr>))"

type_synonym relative_bounding_box = "real \<times> real \<times> real \<times> real"

datatype fer_outcome = Raises | Returns "(string \<times> real) list list"

type_synonym face_result = "int \<times> rect \<times> string \<times> real"

type_synonym log_entry = "int \<times> string \<times> real"

subsection \<open>EmotionRecognizer\<close>

text \<open>
  \<open>max(emotions, key=emotions.get)\<close> is the first key of the greatest score and raises
  \<open>ValueError\<close> on an empty dictionary, here \<open>None\<close>; \<open>predict\<close> catches every
  exception of its \<open>try\<close> block and falls through to the sentinel.
\<close>

fun max_emotion :: "(string \<times> real) list \<Rightarrow> (string \<times> real) option" where
  "max_emotion [] = None"
| "max_emotion (p # ps) = Some (fold (\<lambda>q best. if snd q > snd best then q else best) ps p)"

definition predict :: "(frame \<Rightarrow> rect \<Rightarrow> fer_outcome) option \<Rightarrow> frame \<Rightarrow> rect \<Rightarrow> string \<times> real" where
  "predict fer fr roi =
     (case fer of
        None \<Rightarrow> (''neutral'', 0)
      | Some detect_emotions \<Rightarrow>
          (case detect_emotions fr roi of
             Raises \<Rightarrow> (''neutral'', 0)
           | Returns [] \<Rightarrow> (''neutral'', 0)
           | Returns (emotions # _) \<Rightarrow>
               (case max_emotion emotions of
                  None \<Rightarrow> (''neutral'', 0)
                | Some (emotion, conf) \<Rightarrow> (emotion, conf))))"

subsection \<open>VisionSystem\<close>

record vision =
  camera_index :: int
  emotion_every :: int
  cap :: camera
  detector :: "frame \<Rightarrow> relative_bounding_box list"
  tracker :: centroid_tracker
  emotion :: "(frame \<Rightarrow> rect \<Rightarrow> fer_outcome) option"
  latest_data :: "face_result list"
  frame_count :: int
  logs :: "log_entry list"

definition VisionSystem ::
  "int \<Rightarrow> int \<Rightarrow> camera \<Rightarrow> (frame \<Rightarrow> relative_bounding_box list) \<Rightarrow>
   (frame \<Rightarrow> rect \<Rightarrow> fer_outcome) option \<Rightarrow> vision" where
  "VisionSystem index every c det fer =
     \<lparr>camera_index = index, emotion_every = every, cap = c, detector = det,
      tracker = CentroidTracker 15 80, emotion = fer, latest_data = [], frame_count = 0,
      logs = []\<rparr>"

definition is_open :: "vision \<Rightarrow> bool" where
  "is_open vs = isOpened (cap vs)"

definition bbox_from_detection :: "relative_bounding_box \<Rightarrow> frame \<Rightarrow> rect" where
  "bbox_from_detection detection fr =
     (case detection of (xmin, ymin, width, height) \<Rightarrow>
        (max (py_int (xmin * of_nat (image_w fr))) 0,
         max (py_int (ymin * of_nat (image_h fr))) 0,
         py_int (width * of_nat (image_w fr)),
         py_int (height * of_nat (image_h fr))))"

text \<open>
  \<open>frame[y : y + h, x : x + w].size\<close> for \<open>x, y \<ge> 0\<close> and \<open>w, h \<ge> 1\<close>: a slice stops
  at the edge of the array, and the frame has three channels.
\<close>

definition roi_size :: "frame \<Rightarrow> rect \<Rightarrow> int" where
  "roi_size fr roi =
     (case roi of (x, y, w, h) \<Rightarrow>
        (min (y + h) (int (image_h fr)) - min y (int (image_h fr)))
        * (min (x + w) (int (image_w fr)) - min x (int (image_w fr))) * 3)"

text \<open>
  The body of the loop over \<open>tracked.items()\<close>. It appends to \<open>results\<close> and, through
  \<open>_log_emotion\<close>, to the log file; \<open>self.frame_count % self.emotion_every\<close> raises
  \<open>ZeroDivisionError\<close> when \<open>emotion_every\<close> is \<open>0\<close>. The time stamp of a log line
  and the drawing on the frame are left out.
\<close>

definition per_object ::
  "frame \<Rightarrow> int \<times> rect \<Rightarrow> vision \<times> face_result list \<Rightarrow> error + (vision \<times> face_result list)" where
  "per_object fr tracked_item s =
     (case tracked_item of (person_id, (x0, y0, w0, h0)) \<Rightarrow> case s of (vs, results) \<Rightarrow>
        let x = max x0 0; y = max y0 0; w = max w0 1; h = max h0 1
        in if emotion_every vs = 0 then Inl ZeroDivisionError
           else if frame_count vs mod emotion_every vs = 0 then
             (if roi_size fr (x, y, w, h) > 0 then
                (case predict (emotion vs) fr (x, y, w, h) of (em, conf) \<Rightarrow>
                   Inr (vs\<lparr>logs := logs vs @ [(person_id, em, conf)]\<rparr>,
                        results @ [(person_id, (x, y, w, h), em, conf)]))
              else Inr (vs, results @ [(person_id, (x, y, w, h), ''neutral'', 0)]))
           else Inr (vs, results @ [(person_id, (x, y, w, h), ''neutral'', 0)]))"

text \<open>
  \<open>process_frame\<close> returns the state it leaves behind together with what it raised or
  returned; of the returned pair only the results are kept, the JPEG bytes are not
  modelled.
\<close>

definition process_frame :: "vision \<Rightarrow> vision \<times> (error + face_result list)" where
  "process_frame vs =
     (if \<not> is_open vs then (vs, Inl (RuntimeError ''Cannot open camera''))
      else case read (cap vs) of ((ret, frame), cap') \<Rightarrow>
        let vs1 = vs\<lparr>cap := cap'\<rparr> in
        (case frame of
           None \<Rightarrow> (vs1, Inl (RuntimeError ''Failed to read frame from camera''))
         | Some fr \<Rightarrow>
             if \<not> ret then (vs1, Inl (RuntimeError ''Failed to read frame from camera''))
             else
               let detections = detector vs1 fr;
                   boxes = map (\<lambda>det. bbox_from_detection det fr) detections
               in (case update boxes (tracker vs1) of
                     Inl e \<Rightarrow> (vs1, Inl e)
                   | Inr tracked \<Rightarrow>
                       let vs2 = vs1\<lparr>tracker := tracked, frame_count := frame_count vs1 + 1\<rparr>
                       in (case for_each (per_object fr) (objects tracked) (vs2, []) of
                             Inl e \<Rightarrow> (vs2, Inl e)
                           | Inr (vs3, results) \<Rightarrow>
                               (vs3\<lparr>latest_data := results\<rparr>, Inr results)))))"

text \<open>\<open>get_latest_data\<close> catches \<open>RuntimeError\<close> and nothing else.\<close>

definition get_latest_data :: "vision \<Rightarrow> vision \<times> (error + face_result list)" where
  "get_latest_data vs =
     (if latest_data vs = [] then
        (case process_frame vs of
           (vs', Inl (RuntimeError msg)) \<Rightarrow> (vs', Inr (latest_data vs'))
         | (vs', Inl e) \<Rightarrow> (vs', Inl e)
         | (vs', Inr r) \<Rightarrow> (vs', Inr (latest_data vs')))
      else (vs, Inr (latest_data vs)))"

text \<open>The handler of \<open>/api/frame\<close> in main.py, on the one \<open>VisionSystem\<close> of the process.\<close>

definition api_frame :: "vision \<Rightarrow> vision \<times> (error + face_result list)" where
  "api_frame vs =
     (if \<not> is_open vs then (vs, Inl (HTTPException ''camera''))
      else case get_latest_data vs of
             (vs1, Inl e) \<Rightarrow> (vs1, Inl e)
           | (vs1, Inr data) \<Rightarrow>
               if data = [] then
                 (case process_frame vs1 of
                    (vs2, Inl (RuntimeError msg)) \<Rightarrow> (vs2, Inl (HTTPException msg))
                  | (vs2, Inl e) \<Rightarrow> (vs2, Inl e)
                  | (vs2, Inr r) \<Rightarrow> (vs2, Inr r))
               else (vs1, Inr data))"

section \<open>Invariant and runs\<close>

text \<open>
  What holds of a tracker between calls: the two dictionaries have the same keys in the
  same order, the keys ascend in insertion order, and all are below \<open>next_object_id\<close>.
\<close>

definition tracker_inv :: "centroid_tracker \<Rightarrow> bool" where
  "tracker_inv t \<longleftrightarrow>
     map fst (disappeared t) = map fst (objects t)
     \<and> sorted_wrt (<) (map fst (objects t))
     \<and> (\<forall>k \<in> set (map fst (objects t)). k < next_object_id t)"

text \<open>Sample trackers, used to run the theorems on concrete inputs.\<close>

definition tw3 :: centroid_tracker where
  "tw3 = \<lparr>next_object_id = 2, objects = [(0, (100, 100, 50, 50)), (1, (300, 100, 50, 50))],
           disappeared = [(0, 0), (1, 15)], max_disappeared = 15, max_distance = 80\<rparr>"

text \<open>
  The states a tracker goes through under a sequence of \<open>update\<close> calls, the state
  before the first call at the head; a call that raised would end the list.
\<close>

fun states :: "rect list list \<Rightarrow> centroid_tracker \<Rightarrow> centroid_tracker list" where
  "states [] t = [t]"
| "states (rects # calls) t =
     t # (case update rects t of Inl e \<Rightarrow> [] | Inr t' \<Rightarrow> states calls t')"

definition tw4 :: centroid_tracker where
  "tw4 = \<lparr>next_object_id = 1, objects = [(0, (100, 100, 50, 50))], disappeared = [(0, 0)],
           max_disappeared = 15, max_distance = 80\<rparr>"

definition tw2 :: centroid_tracker where
  "tw2 = \<lparr>next_object_id = 2, objects = [(0, (-25, -25, 50, 50)), (1, (-10, -25, 50, 50))],
           disappeared = [(0, 0), (1, 0)], max_disappeared = 15, max_distance = 80\<rparr>"

text \<open>
  Sample collaborators: a 640 by 480 frame, a camera that is opened and has \<open>n\<close> frames
  to give, and a FER model that sees a happy face in every crop. \<open>ticks n\<close> runs
  \<open>process_frame\<close> \<open>n\<close> times, whatever each call returns or raises.
\<close>

definition frame0 :: frame where
  "frame0 = \<lparr>image_h = 480, image_w = 640, pixels = 0\<rparr>"

definition camera_on :: "nat \<Rightarrow> camera" where
  "camera_on n = \<lparr>isOpened = True, frames = replicate n (True, Some frame0)\<rparr>"

definition happy :: "frame \<Rightarrow> rect \<Rightarrow> fer_outcome" where
  "happy fr roi = Returns [[(''angry'', 1 / 10), (''happy'', 9 / 10)]]"

fun ticks :: "nat \<Rightarrow> vision \<Rightarrow> vision" where
  "ticks 0 vs = vs"
| "ticks (Suc n) vs = ticks n (fst (process_frame vs))"

text \<open>A detector that finds the same face in every frame.\<close>

definition one_face :: "frame \<Rightarrow> relative_bounding_box list" where
  "one_face fr = [(1 / 4, 1 / 4, 1 / 4, 1 / 4)]"

text \<open>
  Four objects at the distances 200, 300, 10 and 10 from a detection at the box
  \<open>(-25, -25, 50, 50)\<close>: the third and the fourth tie.
\<close>

definition tw9 :: centroid_tracker where
  "tw9 = \<lparr>next_object_id = 4,
           objects = [(0, (175, -25, 50, 50)), (1, (275, -25, 50, 50)),
                      (2, (-15, -25, 50, 50)), (3, (-35, -25, 50, 50))],
           disappeared = [(0, 0), (1, 0), (2, 0), (3, 0)],
           max_disappeared = 15, max_distance = 80\<rparr>"

text \<open>A detector that finds no face, and a camera that is not opened.\<close>

definition no_face :: "frame \<Rightarrow> relative_bounding_box list" where
  "no_face fr = []"

definition camera_off :: camera where
  "camera_off = \<lparr>isOpened = False, frames = []\<rparr>"

section \<open>Properties\<close>

subsection \<open>Results and loops\<close>

lemma bind_Inr [simp]: "bind (Inr x) f = f x"
  by (simp add: bind_def)

lemma bind_Inl [simp]: "bind (Inl e) f = Inl e"
  by (simp add: bind_def)

lemma item_in [simp]: "i < length xs \<Longrightarrow> item xs i = Inr (xs ! i)"
  by (simp add: item_def)

lemma for_each_append:
  "for_each body (xs @ ys) s = bind (for_each body xs s) (for_each body ys)"
proof (induction xs arbitrary: s)
  case Nil
  show ?case by simp
next
  case (Cons x xs)
  show ?case
    by (cases "body x s") (simp_all add: Cons.IH)
qed

lemma for_each_total:
  "(\<And>x s. x \<in> set xs \<Longrightarrow> body x s = Inr (f x s)) \<Longrightarrow> for_each body xs s = Inr (fold f xs s)"
  by (induction xs arbitrary: s) simp_all

subsection \<open>The numpy reductions\<close>

lemma min_list_le: "j < length xs \<Longrightarrow> min_list xs \<le> xs ! j"
  for xs :: "'a::linorder list"
proof -
  assume j: "j < length xs"
  then have "xs \<noteq> []" by auto
  then have "min_list xs = Min (set xs)" by (rule min_list_Min)
  moreover have "xs ! j \<in> set xs" using j by simp
  ultimately show ?thesis by simp
qed

lemma argmin_props:
  fixes xs :: "'a::linorder list"
  assumes "xs \<noteq> []"
  shows "argmin xs < length xs \<and> xs ! argmin xs = min_list xs
         \<and> (\<forall>j < argmin xs. min_list xs < xs ! j)"
  using assms
proof (induction xs)
  case Nil
  then show ?case by simp
next
  case (Cons x ys)
  show ?case
  proof (cases ys)
    case Nil
    then show ?thesis by simp
  next
    case (Cons y zs)
    then have ne: "ys \<noteq> []" by simp
    note IH = Cons.IH [OF ne]
    have ml: "min_list (x # ys) = min x (min_list ys)"
      using Cons by simp
    show ?thesis
    proof (cases "x \<le> min_list ys")
      case True
      then have "argmin (x # ys) = 0" using Cons by simp
      then show ?thesis using True ml by (simp add: min_def)
    next
      case False
      then have a: "argmin (x # ys) = Suc (argmin ys)" using Cons by simp
      have m: "min_list (x # ys) = min_list ys" using False ml by (simp add: min_def)
      have "\<forall>j < Suc (argmin ys). min_list ys < (x # ys) ! j"
      proof (intro allI impI)
        fix j assume "j < Suc (argmin ys)"
        then show "min_list ys < (x # ys) ! j"
          using IH False by (cases j) auto
      qed
      then show ?thesis using IH a m by simp
    qed
  qed
qed

lemma set_argsort [simp]: "set (argsort ks) = {0..<length ks}"
  by (simp add: argsort_def)

lemma distinct_argsort [simp]: "distinct (argsort ks)"
  by (simp add: argsort_def)

lemma length_argsort [simp]: "length (argsort ks) = length ks"
  by (simp add: argsort_def)

subsection \<open>Centroids\<close>

lemma floor_half: "\<lfloor>(of_int n / 2 :: real)\<rfloor> = n div 2"
  using floor_divide_of_int_eq [of n 2, where ?'a = real] by simp

lemma ceiling_half: "\<lceil>(of_int n / 2 :: real)\<rceil> = - ((- n) div 2)"
proof -
  have "(- (of_int n / 2) :: real) = of_int (- n) / 2"
    by simp
  then have "\<lfloor>(- (of_int n / 2) :: real)\<rfloor> = (- n) div 2"
    using floor_half [of "- n"] by presburger
  then show ?thesis
    by (simp add: ceiling_def)
qed

lemma half_nonneg: "(0 \<le> (of_int n / 2 :: real)) = (0 \<le> n)"
  by simp

lemma py_int_half:
  "py_int (of_int x + of_int w / 2) =
     (if 0 \<le> 2 * x + w then (2 * x + w) div 2 else - ((- (2 * x + w)) div 2))"
proof -
  have e: "(of_int x + of_int w / 2 :: real) = of_int (2 * x + w) / 2"
    by simp
  show ?thesis
    unfolding py_int_def e half_nonneg floor_half ceiling_half ..
qed

lemma centroid_int:
  "centroid (x, y, w, h) =
     ((if 0 \<le> 2 * x + w then (2 * x + w) div 2 else - ((- (2 * x + w)) div 2)),
      (if 0 \<le> 2 * y + h then (2 * y + h) div 2 else - ((- (2 * y + h)) div 2)))"
  unfolding centroid_def prod.case py_int_half ..

lemma trunc_half_props:
  fixes n :: int
  defines "c \<equiv> (if 0 \<le> n then n div 2 else - ((- n) div 2))"
  shows "\<bar>real_of_int c\<bar> \<le> \<bar>of_int n / 2\<bar>"
    and "\<bar>of_int n / 2 - real_of_int c\<bar> = (if even n then 0 else 1 / 2)"
proof -
  define d :: int where "d = (if even n then 0 else if 0 \<le> n then 1 else -1)"
  have "2 * c = n - d"
    unfolding c_def d_def by presburger
  then have "real_of_int (2 * c) = real_of_int (n - d)"
    by simp
  then have r: "real_of_int c = (of_int n - of_int d) / 2"
    by simp
  have d0: "even n \<Longrightarrow> d = 0" and d1: "odd n \<Longrightarrow> 0 \<le> n \<Longrightarrow> d = 1"
    and d2: "odd n \<Longrightarrow> \<not> 0 \<le> n \<Longrightarrow> d = -1"
    by (simp_all add: d_def)
  have pos: "odd n \<Longrightarrow> 0 \<le> n \<Longrightarrow> 1 \<le> n"
    by presburger
  show "\<bar>real_of_int c\<bar> \<le> \<bar>of_int n / 2\<bar>"
  proof (cases "even n")
    case True
    then show ?thesis using r d0 by simp
  next
    case False
    show ?thesis
    proof (cases "0 \<le> n")
      case True
      then have "1 \<le> real_of_int n" using pos False by linarith
      then show ?thesis using r d1 [OF False True] by simp
    next
      case nneg: False
      then have "real_of_int n \<le> -1" by linarith
      then show ?thesis using r d2 [OF False nneg] by simp
    qed
  qed
  show "\<bar>of_int n / 2 - real_of_int c\<bar> = (if even n then 0 else 1 / 2)"
  proof (cases "even n")
    case True
    then show ?thesis using r d0 by simp
  next
    case False
    show ?thesis
    proof (cases "0 \<le> n")
      case True
      then show ?thesis using r d1 [OF False True] False by (simp add: field_simps)
    next
      case nneg: False
      then show ?thesis using r d2 [OF False nneg] False by (simp add: field_simps)
    qed
  qed
qed

text \<open>
  C6 (amended). The centroid used for matching is the geometric centre
  \<open>(x + w/2, y + h/2)\<close> with each coordinate truncated toward zero to an integer: it
  is never farther from zero than the centre, it equals the centre in a coordinate whose
  extent is even, and it is off by exactly one half where the extent is odd.
\<close>

theorem centroid_truncates:
  "\<bar>real_of_int (fst (centroid (x, y, w, h)))\<bar> \<le> \<bar>of_int x + of_int w / 2\<bar> \<and>
   \<bar>(of_int x + of_int w / 2) - real_of_int (fst (centroid (x, y, w, h)))\<bar>
      = (if even w then 0 else 1 / 2) \<and>
   \<bar>real_of_int (snd (centroid (x, y, w, h)))\<bar> \<le> \<bar>of_int y + of_int h / 2\<bar> \<and>
   \<bar>(of_int y + of_int h / 2) - real_of_int (snd (centroid (x, y, w, h)))\<bar>
      = (if even h then 0 else 1 / 2)"
proof -
  have e: "(of_int a + of_int b / 2 :: real) = of_int (2 * a + b) / 2" for a b :: int
    by simp
  have ev: "even (2 * a + b) = even b" for a b :: int
    by simp
  show ?thesis
    unfolding centroid_int fst_conv snd_conv e
    using trunc_half_props [of "2 * x + w"] trunc_half_props [of "2 * y + h"]
    unfolding ev by blast
qed

text \<open>
  C6 as stated fails: the box \<open>(0, 0, 1, 1)\<close> has the centre \<open>(1/2, 1/2)\<close> and the
  centroid \<open>(0, 0)\<close>.
\<close>

theorem centroid_counterexample:
  "real_of_int (fst (centroid (0, 0, 1, 1))) \<noteq> 0 + 1 / 2 \<and>
   real_of_int (snd (centroid (0, 0, 1, 1))) \<noteq> 0 + 1 / 2"
  by (simp add: centroid_int)

theorem centroid_truncates_witness:
  "\<bar>(of_int 0 + of_int 1 / 2) - real_of_int (fst (centroid (0, 0, 1, 1)))\<bar> = 1 / 2
   \<and> centroid (0, 0, 1, 1) = (0, 0) \<and> centroid (100, 100, 50, 50) = (125, 125)
   \<and> centroid (- 3, 0, 1, 1) = (- 2, 0)"
  using centroid_truncates [of 0 0 1 1]
  by (simp add: centroid_int)

subsection \<open>Dictionary steps\<close>

lemma key_iff_map_of: "(k \<in> set (map fst al)) = (map_of al k \<noteq> None)"
  by (simp add: map_of_eq_None_iff)

lemma update_fresh: "k \<notin> set (map fst al) \<Longrightarrow> AList.update k v al = al @ [(k, v)]"
  by (induction al) auto

lemma update_present_keys: "k \<in> set (map fst al) \<Longrightarrow> map fst (AList.update k v al) = map fst al"
  by (simp add: update_keys)

lemma tracker_inv_keys: "tracker_inv t \<Longrightarrow> map fst (disappeared t) = map fst (objects t)"
  by (simp add: tracker_inv_def)

lemma tracker_inv_distinct: "tracker_inv t \<Longrightarrow> distinct (map fst (objects t))"
  unfolding tracker_inv_def using strict_sorted_iff by blast

lemma tracker_inv_count:
  assumes "tracker_inv t" and "k \<in> set (map fst (objects t))"
  shows "\<exists>n. map_of (disappeared t) k = Some n"
proof -
  have "k \<in> set (map fst (disappeared t))"
    using assms by (simp add: tracker_inv_def)
  then show ?thesis
    unfolding key_iff_map_of by blast
qed

lemma mark_disappeared_effect:
  assumes inv: "tracker_inv t" and k: "k \<in> set (map fst (objects t))"
  shows "\<exists>t' n. mark_disappeared k t = Inr t' \<and> map_of (disappeared t) k = Some n
     \<and> tracker_inv t'
     \<and> next_object_id t' = next_object_id t
     \<and> max_disappeared t' = max_disappeared t \<and> max_distance t' = max_distance t
     \<and> map_of (objects t') = (if max_disappeared t < n + 1 then (map_of (objects t))(k := None) else map_of (objects t))
     \<and> map_of (disappeared t') =
          (if max_disappeared t < n + 1 then (map_of (disappeared t))(k := None)
           else (map_of (disappeared t))(k \<mapsto> n + 1))"
proof -
  obtain n where n: "map_of (disappeared t) k = Some n"
    using tracker_inv_count [OF inv k] by blast
  have kd: "k \<in> set (map fst (disappeared t))"
    using k inv by (simp add: tracker_inv_def)
  define t1 where "t1 = t\<lparr>disappeared := AList.update k (n + 1) (disappeared t)\<rparr>"
  have inv1: "tracker_inv t1"
    using inv kd unfolding tracker_inv_def t1_def by (simp add: update_keys)
  have inv2: "tracker_inv (deregister k t1)"
    using inv1 unfolding tracker_inv_def deregister_def
    by (auto simp: delete_keys removeAll_filter_not_eq sorted_wrt_filter)
  show ?thesis
  proof (cases "max_disappeared t < n + 1")
    case True
    then have "mark_disappeared k t = Inr (deregister k t1)"
      by (simp add: mark_disappeared_def n t1_def Let_def)
    moreover have "map_of (objects (deregister k t1)) = (map_of (objects t))(k := None)"
      by (simp add: deregister_def t1_def delete_conv')
    moreover have "map_of (disappeared (deregister k t1)) = (map_of (disappeared t))(k := None)"
      by (simp add: deregister_def t1_def delete_conv' update_conv')
    ultimately show ?thesis
      using True n inv2 by (simp add: deregister_def t1_def)
  next
    case False
    then have "mark_disappeared k t = Inr t1"
      by (simp add: mark_disappeared_def n t1_def Let_def)
    moreover have "map_of (disappeared t1) = (map_of (disappeared t))(k \<mapsto> n + 1)"
      by (simp add: t1_def update_conv')
    ultimately show ?thesis
      using False n inv1 by (simp add: t1_def)
  qed
qed

lemma ageing_loop:
  assumes "tracker_inv t" and "distinct ks" and "set ks \<subseteq> set (map fst (objects t))"
  shows "\<exists>t'. for_each mark_disappeared ks t = Inr t' \<and> tracker_inv t'
     \<and> next_object_id t' = next_object_id t
     \<and> max_disappeared t' = max_disappeared t \<and> max_distance t' = max_distance t
     \<and> (\<forall>k. map_of (objects t') k =
           (if k \<in> set ks \<and> (\<exists>n. map_of (disappeared t) k = Some n \<and> max_disappeared t < n + 1)
            then None else map_of (objects t) k))
     \<and> (\<forall>k. map_of (disappeared t') k =
           (if k \<in> set ks
            then (case map_of (disappeared t) k of None \<Rightarrow> None
                  | Some n \<Rightarrow> if max_disappeared t < n + 1 then None else Some (n + 1))
            else map_of (disappeared t) k))"
  using assms
proof (induction ks arbitrary: t)
  case Nil
  then show ?case by simp
next
  case (Cons k ks)
  have k: "k \<in> set (map fst (objects t))" using Cons.prems(3) by simp
  obtain t1 n where s: "mark_disappeared k t = Inr t1" and n: "map_of (disappeared t) k = Some n"
    and inv1: "tracker_inv t1" and f1: "next_object_id t1 = next_object_id t"
      "max_disappeared t1 = max_disappeared t" "max_distance t1 = max_distance t"
    and o1: "map_of (objects t1) = (if max_disappeared t < n + 1 then (map_of (objects t))(k := None) else map_of (objects t))"
    and d1: "map_of (disappeared t1) =
          (if max_disappeared t < n + 1 then (map_of (disappeared t))(k := None)
           else (map_of (disappeared t))(k \<mapsto> n + 1))"
    using mark_disappeared_effect [OF Cons.prems(1) k] by blast
  have nk: "k \<notin> set ks" and dist: "distinct ks" using Cons.prems(2) by simp_all
  have sub: "set ks \<subseteq> set (map fst (objects t1))"
  proof
    fix x assume x: "x \<in> set ks"
    then have "x \<noteq> k" using nk by blast
    moreover have "map_of (objects t) x \<noteq> None"
      using x Cons.prems(3) key_iff_map_of [of x "objects t"] by auto
    ultimately have "map_of (objects t1) x \<noteq> None"
      using o1 by simp
    then show "x \<in> set (map fst (objects t1))"
      unfolding key_iff_map_of .
  qed
  obtain t' where l: "for_each mark_disappeared ks t1 = Inr t'" and inv': "tracker_inv t'"
    and f': "next_object_id t' = next_object_id t1"
      "max_disappeared t' = max_disappeared t1" "max_distance t' = max_distance t1"
    and o': "\<forall>x. map_of (objects t') x =
           (if x \<in> set ks \<and> (\<exists>n. map_of (disappeared t1) x = Some n \<and> max_disappeared t1 < n + 1)
            then None else map_of (objects t1) x)"
    and d': "\<forall>x. map_of (disappeared t') x =
           (if x \<in> set ks
            then (case map_of (disappeared t1) x of None \<Rightarrow> None
                  | Some n \<Rightarrow> if max_disappeared t1 < n + 1 then None else Some (n + 1))
            else map_of (disappeared t1) x)"
    using Cons.IH [OF inv1 dist sub] by blast
  have d1x: "x \<noteq> k \<Longrightarrow> map_of (disappeared t1) x = map_of (disappeared t) x" for x
    using d1 by simp
  have o1x: "x \<noteq> k \<Longrightarrow> map_of (objects t1) x = map_of (objects t) x" for x
    using o1 by simp
  have o1k: "map_of (objects t1) k = (if max_disappeared t < n + 1 then None else map_of (objects t) k)"
    using o1 by simp
  have d1k: "map_of (disappeared t1) k = (if max_disappeared t < n + 1 then None else Some (n + 1))"
    using d1 by simp
  have o'k: "map_of (objects t') k = map_of (objects t1) k"
    using o' nk by simp
  have d'k: "map_of (disappeared t') k = map_of (disappeared t1) k"
    using d' nk by simp
  have "for_each mark_disappeared (k # ks) t = Inr t'"
    using s l by simp
  moreover have "\<forall>x. map_of (objects t') x =
           (if x \<in> set (k # ks) \<and> (\<exists>n. map_of (disappeared t) x = Some n \<and> max_disappeared t < n + 1)
            then None else map_of (objects t) x)"
  proof
    fix x
    show "map_of (objects t') x =
           (if x \<in> set (k # ks) \<and> (\<exists>n. map_of (disappeared t) x = Some n \<and> max_disappeared t < n + 1)
            then None else map_of (objects t) x)"
    proof (cases "x = k")
      case True
      then show ?thesis by (simp add: o'k o1k n)
    next
      case False
      then show ?thesis by (auto simp: o' d1x o1x f1)
    qed
  qed
  moreover have "\<forall>x. map_of (disappeared t') x =
           (if x \<in> set (k # ks)
            then (case map_of (disappeared t) x of None \<Rightarrow> None
                  | Some n \<Rightarrow> if max_disappeared t < n + 1 then None else Some (n + 1))
            else map_of (disappeared t) x)"
  proof
    fix x
    show "map_of (disappeared t') x =
           (if x \<in> set (k # ks)
            then (case map_of (disappeared t) x of None \<Rightarrow> None
                  | Some n \<Rightarrow> if max_disappeared t < n + 1 then None else Some (n + 1))
            else map_of (disappeared t) x)"
    proof (cases "x = k")
      case True
      then show ?thesis by (simp add: d'k d1k n)
    next
      case False
      then show ?thesis by (auto simp: d' [unfolded f1] d1x)
    qed
  qed
  ultimately show ?case
    using inv' f' f1 by simp
qed

subsection \<open>A tick without detections\<close>

text \<open>
  C3. An \<open>update\<close> with no detection returns without raising; every tracked object
  had a count \<open>n\<close>, which becomes \<open>n + 1\<close>; where \<open>n + 1\<close> exceeds
  \<open>max_disappeared\<close> the object is gone from both dictionaries, otherwise it keeps its
  box; and the returned mapping holds no other object.
\<close>

theorem update_no_detections:
  assumes "tracker_inv t"
  shows "\<exists>t'. update [] t = Inr t'
     \<and> (\<forall>(k, box) \<in> set (objects t). \<exists>n. map_of (disappeared t) k = Some n
           \<and> (if max_disappeared t < n + 1
               then map_of (objects t') k = None \<and> map_of (disappeared t') k = None
               else map_of (objects t') k = Some box \<and> map_of (disappeared t') k = Some (n + 1)))
     \<and> dom (map_of (objects t')) \<subseteq> dom (map_of (objects t))"
proof -
  have keys: "map fst (disappeared t) = map fst (objects t)"
    using assms by (rule tracker_inv_keys)
  have dist: "distinct (map fst (objects t))"
    using assms by (rule tracker_inv_distinct)
  obtain t' where l: "for_each mark_disappeared (map fst (objects t)) t = Inr t'"
    and o': "\<forall>k. map_of (objects t') k =
           (if k \<in> set (map fst (objects t)) \<and> (\<exists>n. map_of (disappeared t) k = Some n \<and> max_disappeared t < n + 1)
            then None else map_of (objects t) k)"
    and d': "\<forall>k. map_of (disappeared t') k =
           (if k \<in> set (map fst (objects t))
            then (case map_of (disappeared t) k of None \<Rightarrow> None
                  | Some n \<Rightarrow> if max_disappeared t < n + 1 then None else Some (n + 1))
            else map_of (disappeared t) k)"
    using ageing_loop [OF assms dist subset_refl] by blast
  have u: "update [] t = Inr t'"
    using l by (simp add: update_def keys)
  have each: "\<exists>n. map_of (disappeared t) k = Some n
           \<and> (if max_disappeared t < n + 1
               then map_of (objects t') k = None \<and> map_of (disappeared t') k = None
               else map_of (objects t') k = Some box \<and> map_of (disappeared t') k = Some (n + 1))"
    if kb: "(k, box) \<in> set (objects t)" for k box
  proof -
    have k: "k \<in> set (map fst (objects t))"
      using kb by force
    obtain n where n: "map_of (disappeared t) k = Some n"
      using tracker_inv_count [OF assms k] by blast
    have b: "map_of (objects t) k = Some box"
      using kb dist by simp
    show ?thesis
      using n b k o' [rule_format, of k] d' [rule_format, of k] by simp
  qed
  have "dom (map_of (objects t')) \<subseteq> dom (map_of (objects t))"
  proof
    fix k assume "k \<in> dom (map_of (objects t'))"
    then have "map_of (objects t') k \<noteq> None" by blast
    then have "map_of (objects t) k \<noteq> None"
      using o' [rule_format, of k] by (simp split: if_splits)
    then show "k \<in> dom (map_of (objects t))" by blast
  qed
  then show ?thesis
    using u each by blast
qed

theorem update_no_detections_witness:
  "tracker_inv tw3
   \<and> update [] tw3 = Inr \<lparr>next_object_id = 2, objects = [(0, (100, 100, 50, 50))],
        disappeared = [(0, 1)], max_disappeared = 15, max_distance = 80\<rparr>"
  using update_no_detections [of tw3]
  by (simp add: tw3_def tracker_inv_def update_def mark_disappeared_def deregister_def)

subsection \<open>The greedy loop\<close>

lemma assign_step_eval:
  assumes "r < length D" and "c < length (D ! r)" and "r < length ids" and "c < length rects"
  shows "assign_step D ids rects (r, c) (t, ar, ac) =
     Inr (if r \<in> ar \<or> c \<in> ac \<or> max_distance t < D ! r ! c then (t, ar, ac)
          else (t\<lparr>objects := AList.update (ids ! r) (rects ! c) (objects t),
                  disappeared := AList.update (ids ! r) 0 (disappeared t)\<rparr>,
                insert r ar, insert c ac))"
  using assms by (simp add: assign_step_def)

lemma assign_keeps_inv:
  assumes "tracker_inv t" and "k \<in> set (map fst (objects t))"
  shows "tracker_inv (t\<lparr>objects := AList.update k b (objects t),
                         disappeared := AList.update k 0 (disappeared t)\<rparr>)"
  using assms unfolding tracker_inv_def by (simp add: update_keys)

lemma greedy_loop:
  assumes inv: "tracker_inv t" and ids: "ids = map fst (objects t)"
    and rng: "\<forall>p \<in> set ps. fst p < length D \<and> snd p < length (D ! fst p)
                \<and> fst p < length ids \<and> snd p < length rects"
    and dist: "distinct (map fst ps)"
  shows "\<exists>t' ar ac. for_each (assign_step D ids rects) ps (t, {}, {}) = Inr (t', ar, ac)
     \<and> tracker_inv t' \<and> map fst (objects t') = ids
     \<and> next_object_id t' = next_object_id t
     \<and> max_disappeared t' = max_disappeared t \<and> max_distance t' = max_distance t
     \<and> ar \<subseteq> fst ` set ps
     \<and> ac = snd ` {p \<in> set ps. fst p \<in> ar}
     \<and> (\<forall>i < length ps. (fst (ps ! i) \<in> ar) =
            (D ! fst (ps ! i) ! snd (ps ! i) \<le> max_distance t
             \<and> (\<forall>j < i. fst (ps ! j) \<in> ar \<longrightarrow> snd (ps ! j) \<noteq> snd (ps ! i))))
     \<and> (\<forall>p \<in> set ps. fst p \<in> ar \<longrightarrow>
            map_of (objects t') (ids ! fst p) = Some (rects ! snd p)
            \<and> map_of (disappeared t') (ids ! fst p) = Some 0)
     \<and> (\<forall>k. k \<notin> (\<lambda>r. ids ! r) ` ar \<longrightarrow>
            map_of (objects t') k = map_of (objects t) k
            \<and> map_of (disappeared t') k = map_of (disappeared t) k)"
  using rng dist
proof (induction ps rule: rev_induct)
  case Nil
  show ?case using inv ids by simp
next
  case (snoc p ps)
  obtain r c where p: "p = (r, c)" by (cases p)
  have rng_ps: "\<forall>p \<in> set ps. fst p < length D \<and> snd p < length (D ! fst p)
                \<and> fst p < length ids \<and> snd p < length rects"
    using snoc.prems(1) by simp
  have r1: "r < length D" and r2: "c < length (D ! r)" and r3: "r < length ids" and r4: "c < length rects"
    using snoc.prems(1) p by simp_all
  have dist_ps: "distinct (map fst ps)" and fresh: "r \<notin> fst ` set ps"
    using snoc.prems(2) p by simp_all
  obtain t1 ar1 ac1 where
    run: "for_each (assign_step D ids rects) ps (t, {}, {}) = Inr (t1, ar1, ac1)"
    and inv1: "tracker_inv t1" and keys1: "map fst (objects t1) = ids"
    and f1: "next_object_id t1 = next_object_id t" "max_disappeared t1 = max_disappeared t"
      "max_distance t1 = max_distance t"
    and sub1: "ar1 \<subseteq> fst ` set ps"
    and ac1: "ac1 = snd ` {p \<in> set ps. fst p \<in> ar1}"
    and idx1: "\<forall>i < length ps. (fst (ps ! i) \<in> ar1) =
            (D ! fst (ps ! i) ! snd (ps ! i) \<le> max_distance t
             \<and> (\<forall>j < i. fst (ps ! j) \<in> ar1 \<longrightarrow> snd (ps ! j) \<noteq> snd (ps ! i)))"
    and got1: "\<forall>p \<in> set ps. fst p \<in> ar1 \<longrightarrow>
            map_of (objects t1) (ids ! fst p) = Some (rects ! snd p)
            \<and> map_of (disappeared t1) (ids ! fst p) = Some 0"
    and rest1: "\<forall>k. k \<notin> (\<lambda>r. ids ! r) ` ar1 \<longrightarrow>
            map_of (objects t1) k = map_of (objects t) k
            \<and> map_of (disappeared t1) k = map_of (disappeared t) k"
    using snoc.IH [OF rng_ps dist_ps] by blast
  have rnew: "r \<notin> ar1" using sub1 fresh by blast
  have other: "fst q \<noteq> r" if "q \<in> set ps" for q
    using that fresh by force
  have cfree: "(c \<in> ac1) = (\<exists>j < length ps. fst (ps ! j) \<in> ar1 \<and> snd (ps ! j) = c)"
  proof
    assume "c \<in> ac1"
    then obtain q where q: "q \<in> set ps" "fst q \<in> ar1" "snd q = c"
      unfolding ac1 by blast
    then obtain j where "j < length ps" "ps ! j = q"
      by (meson in_set_conv_nth)
    then show "\<exists>j < length ps. fst (ps ! j) \<in> ar1 \<and> snd (ps ! j) = c"
      using q by blast
  next
    assume "\<exists>j < length ps. fst (ps ! j) \<in> ar1 \<and> snd (ps ! j) = c"
    then obtain j where j: "j < length ps" "fst (ps ! j) \<in> ar1" "snd (ps ! j) = c"
      by blast
    then have "ps ! j \<in> {p \<in> set ps. fst p \<in> ar1}" by simp
    then show "c \<in> ac1" unfolding ac1 using j(3) by (metis imageI)
  qed
  have distinct_ids: "distinct ids"
    using inv ids by (simp add: tracker_inv_distinct)
  have step: "for_each (assign_step D ids rects) (ps @ [p]) (t, {}, {}) =
     Inr (if c \<in> ac1 \<or> max_distance t < D ! r ! c then (t1, ar1, ac1)
          else (t1\<lparr>objects := AList.update (ids ! r) (rects ! c) (objects t1),
                  disappeared := AList.update (ids ! r) 0 (disappeared t1)\<rparr>,
                insert r ar1, insert c ac1))"
    unfolding for_each_append run p
    using assign_step_eval [OF r1 r2 r3 r4, of t1 ar1 ac1] rnew f1 by simp
  show ?case
  proof (cases "c \<in> ac1 \<or> max_distance t < D ! r ! c")
    case True
    have res: "for_each (assign_step D ids rects) (ps @ [p]) (t, {}, {}) = Inr (t1, ar1, ac1)"
      using step True by simp
    have a: "ar1 \<subseteq> fst ` set (ps @ [p])" using sub1 by auto
    have b: "ac1 = snd ` {q \<in> set (ps @ [p]). fst q \<in> ar1}"
      unfolding ac1 using rnew p by auto
    have cidx: "\<forall>i < length (ps @ [p]). (fst ((ps @ [p]) ! i) \<in> ar1) =
            (D ! fst ((ps @ [p]) ! i) ! snd ((ps @ [p]) ! i) \<le> max_distance t
             \<and> (\<forall>j < i. fst ((ps @ [p]) ! j) \<in> ar1 \<longrightarrow> snd ((ps @ [p]) ! j) \<noteq> snd ((ps @ [p]) ! i)))"
    proof (intro allI impI)
      fix i assume i: "i < length (ps @ [p])"
      show "(fst ((ps @ [p]) ! i) \<in> ar1) =
            (D ! fst ((ps @ [p]) ! i) ! snd ((ps @ [p]) ! i) \<le> max_distance t
             \<and> (\<forall>j < i. fst ((ps @ [p]) ! j) \<in> ar1 \<longrightarrow> snd ((ps @ [p]) ! j) \<noteq> snd ((ps @ [p]) ! i)))"
      proof (cases "i < length ps")
        case True
        then show ?thesis
          using idx1 [rule_format, of i] by (simp add: nth_append)
      next
        case False
        then have il: "i = length ps" using i by simp
        show ?thesis
          using \<open>c \<in> ac1 \<or> max_distance t < D ! r ! c\<close> rnew cfree
          by (auto simp: il p nth_append)
      qed
    qed
    have d: "\<forall>q \<in> set (ps @ [p]). fst q \<in> ar1 \<longrightarrow>
            map_of (objects t1) (ids ! fst q) = Some (rects ! snd q)
            \<and> map_of (disappeared t1) (ids ! fst q) = Some 0"
      using got1 rnew p by auto
    show ?thesis
      using res inv1 keys1 f1 a b cidx d rest1 by blast
  next
    case False
    define t2 where "t2 = t1\<lparr>objects := AList.update (ids ! r) (rects ! c) (objects t1),
                  disappeared := AList.update (ids ! r) 0 (disappeared t1)\<rparr>"
    have kin: "ids ! r \<in> set (map fst (objects t1))"
      using keys1 r3 by simp
    have res: "for_each (assign_step D ids rects) (ps @ [p]) (t, {}, {}) =
        Inr (t2, insert r ar1, insert c ac1)"
      using step False by (simp add: t2_def)
    have inv2: "tracker_inv t2"
      unfolding t2_def using inv1 kin by (rule assign_keeps_inv)
    have keys2: "map fst (objects t2) = ids"
      using keys1 kin by (simp add: t2_def update_keys)
    have f2: "next_object_id t2 = next_object_id t" "max_disappeared t2 = max_disappeared t"
      "max_distance t2 = max_distance t"
      using f1 by (simp_all add: t2_def)
    have a: "insert r ar1 \<subseteq> fst ` set (ps @ [p])"
      using sub1 p by auto
    have b: "insert c ac1 = snd ` {q \<in> set (ps @ [p]). fst q \<in> insert r ar1}"
    proof -
      have "{q \<in> set (ps @ [p]). fst q \<in> insert r ar1} = insert p {q \<in> set ps. fst q \<in> ar1}"
        using other p by auto
      then show ?thesis unfolding ac1 using p by simp
    qed
    have cidx: "\<forall>i < length (ps @ [p]). (fst ((ps @ [p]) ! i) \<in> insert r ar1) =
            (D ! fst ((ps @ [p]) ! i) ! snd ((ps @ [p]) ! i) \<le> max_distance t
             \<and> (\<forall>j < i. fst ((ps @ [p]) ! j) \<in> insert r ar1
                    \<longrightarrow> snd ((ps @ [p]) ! j) \<noteq> snd ((ps @ [p]) ! i)))"
    proof (intro allI impI)
      fix i assume i: "i < length (ps @ [p])"
      have o: "fst (ps ! j) \<noteq> r" if "j < length ps" for j
        using other [of "ps ! j"] that by simp
      show "(fst ((ps @ [p]) ! i) \<in> insert r ar1) =
            (D ! fst ((ps @ [p]) ! i) ! snd ((ps @ [p]) ! i) \<le> max_distance t
             \<and> (\<forall>j < i. fst ((ps @ [p]) ! j) \<in> insert r ar1
                    \<longrightarrow> snd ((ps @ [p]) ! j) \<noteq> snd ((ps @ [p]) ! i)))"
      proof (cases "i < length ps")
        case True
        have "(\<forall>j < i. fst ((ps @ [p]) ! j) \<in> insert r ar1 \<longrightarrow> snd ((ps @ [p]) ! j) \<noteq> snd (ps ! i))
            = (\<forall>j < i. fst (ps ! j) \<in> ar1 \<longrightarrow> snd (ps ! j) \<noteq> snd (ps ! i))"
          using True o by (auto simp: nth_append)
        then show ?thesis
          using idx1 [rule_format, of i] True o [of i] by (simp add: nth_append)
      next
        case nl: False
        then have il: "i = length ps" using i by simp
        have "(\<forall>j < length ps. fst ((ps @ [p]) ! j) \<in> insert r ar1 \<longrightarrow> snd ((ps @ [p]) ! j) \<noteq> c)
            = (\<forall>j < length ps. fst (ps ! j) \<in> ar1 \<longrightarrow> snd (ps ! j) \<noteq> c)"
          using o by (auto simp: nth_append)
        then show ?thesis
          using False cfree by (auto simp: il p)
      qed
    qed
    have d: "\<forall>q \<in> set (ps @ [p]). fst q \<in> insert r ar1 \<longrightarrow>
            map_of (objects t2) (ids ! fst q) = Some (rects ! snd q)
            \<and> map_of (disappeared t2) (ids ! fst q) = Some 0"
    proof (intro ballI impI)
      fix q assume q: "q \<in> set (ps @ [p])" and qa: "fst q \<in> insert r ar1"
      show "map_of (objects t2) (ids ! fst q) = Some (rects ! snd q)
            \<and> map_of (disappeared t2) (ids ! fst q) = Some 0"
      proof (cases "q = p")
        case True
        then show ?thesis by (simp add: p t2_def update_conv')
      next
        case False
        then have qs: "q \<in> set ps" using q by simp
        then have ne: "fst q \<noteq> r" by (rule other)
        then have qa1: "fst q \<in> ar1" using qa by simp
        have "fst q < length ids" using rng_ps qs by blast
        then have "ids ! fst q \<noteq> ids ! r"
          using ne r3 distinct_ids by (simp add: nth_eq_iff_index_eq)
        then show ?thesis
          using got1 qs qa1 by (simp add: t2_def update_conv')
      qed
    qed
    have e: "\<forall>k. k \<notin> (\<lambda>r. ids ! r) ` insert r ar1 \<longrightarrow>
            map_of (objects t2) k = map_of (objects t) k
            \<and> map_of (disappeared t2) k = map_of (disappeared t) k"
      using rest1 by (simp add: t2_def update_conv')
    show ?thesis
      using res inv2 keys2 f2 a b cidx d e by blast
  qed
qed

subsection \<open>The distance matrix and the order of the pairs\<close>

lemma length_distance_matrix [simp]: "length (distance_matrix rects t) = length (objects t)"
  by (simp add: distance_matrix_def pairwise_distances_def compute_centroids_def)

lemma length_distance_row [simp]:
  "r < length (objects t) \<Longrightarrow> length (distance_matrix rects t ! r) = length rects"
  by (simp add: distance_matrix_def pairwise_distances_def compute_centroids_def)

lemma distance_matrix_nth:
  "r < length (objects t) \<Longrightarrow> c < length rects \<Longrightarrow>
   distance_matrix rects t ! r ! c = euclid (centroid (snd (objects t ! r))) (centroid (rects ! c))"
  by (simp add: distance_matrix_def pairwise_distances_def compute_centroids_def)

lemma rows_matching_order: "map fst (matching_order D) = argsort (map min_list D)"
  by (simp add: matching_order_def Let_def)

lemma length_matching_order [simp]: "length (matching_order D) = length D"
  by (simp add: matching_order_def Let_def)

lemma cols_matching_order:
  assumes "p \<in> set (matching_order D)"
  shows "fst p < length D \<and> snd p = argmin (D ! fst p)"
proof -
  obtain i where i: "i < length (matching_order D)" and pi: "matching_order D ! i = p"
    using assms by (meson in_set_conv_nth)
  have il: "i < length D" using i by simp
  have "i < length (argsort (map min_list D))"
    using il by simp
  then have "argsort (map min_list D) ! i \<in> set (argsort (map min_list D))"
    by (rule nth_mem)
  then have r: "argsort (map min_list D) ! i < length D"
    by simp
  have "p = (argsort (map min_list D) ! i, map argmin D ! (argsort (map min_list D) ! i))"
    using pi il by (simp add: matching_order_def Let_def)
  then show ?thesis using r by simp
qed

lemma matching_order_range:
  assumes "rects \<noteq> []" and "D = distance_matrix rects t" and "ids = map fst (objects t)"
  shows "\<forall>p \<in> set (matching_order D). fst p < length D \<and> snd p < length (D ! fst p)
                \<and> fst p < length ids \<and> snd p < length rects"
proof
  fix p assume p: "p \<in> set (matching_order D)"
  have r: "fst p < length D" and c: "snd p = argmin (D ! fst p)"
    using cols_matching_order [OF p] by simp_all
  have ro: "fst p < length (objects t)" using r assms(2) by simp
  have len: "length (D ! fst p) = length rects"
    using ro assms(2) by simp
  then have "D ! fst p \<noteq> []" using assms(1) by auto
  then have "argmin (D ! fst p) < length (D ! fst p)"
    using argmin_props by blast
  then show "fst p < length D \<and> snd p < length (D ! fst p)
                \<and> fst p < length ids \<and> snd p < length rects"
    using r c ro len assms(3) by simp
qed

lemma distinct_rows_matching_order: "distinct (map fst (matching_order D))"
  by (simp add: rows_matching_order)

subsection \<open>Registration\<close>

lemma register_effect:
  assumes "tracker_inv t"
  shows "tracker_inv (register rect t)
     \<and> objects (register rect t) = objects t @ [(next_object_id t, rect)]
     \<and> disappeared (register rect t) = disappeared t @ [(next_object_id t, 0)]
     \<and> next_object_id (register rect t) = next_object_id t + 1
     \<and> max_disappeared (register rect t) = max_disappeared t
     \<and> max_distance (register rect t) = max_distance t"
proof -
  have fresh: "next_object_id t \<notin> set (map fst (objects t))"
    using assms unfolding tracker_inv_def by auto
  have fresh': "next_object_id t \<notin> set (map fst (disappeared t))"
    using fresh assms by (simp add: tracker_inv_def)
  have o: "objects (register rect t) = objects t @ [(next_object_id t, rect)]"
    using update_fresh [OF fresh] by (simp add: register_def)
  have d: "disappeared (register rect t) = disappeared t @ [(next_object_id t, 0)]"
    using update_fresh [OF fresh'] by (simp add: register_def)
  have n: "next_object_id (register rect t) = next_object_id t + 1"
    by (simp add: register_def)
  have "tracker_inv (register rect t)"
    using assms unfolding tracker_inv_def o d n
    by (auto simp: sorted_wrt_append)
  then show ?thesis
    using o d n by (simp add: register_def)
qed

lemma fold_register:
  assumes "tracker_inv t"
  shows "tracker_inv (fold register rs t)
     \<and> objects (fold register rs t)
         = objects t @ zip (map (\<lambda>i. next_object_id t + int i) [0..<length rs]) rs
     \<and> disappeared (fold register rs t)
         = disappeared t @ map (\<lambda>i. (next_object_id t + int i, 0)) [0..<length rs]
     \<and> next_object_id (fold register rs t) = next_object_id t + int (length rs)
     \<and> max_disappeared (fold register rs t) = max_disappeared t
     \<and> max_distance (fold register rs t) = max_distance t"
  using assms
proof (induction rs arbitrary: t)
  case Nil
  then show ?case by simp
next
  case (Cons r rs)
  note e = register_effect [OF Cons.prems, of r]
  have inv1: "tracker_inv (register r t)" using e by simp
  note IH = Cons.IH [OF inv1]
  have shift: "map (\<lambda>i. next_object_id t + int i) [0..<Suc (length rs)]
      = next_object_id t # map (\<lambda>i. next_object_id t + 1 + int i) [0..<length rs]"
    by (simp add: upt_conv_Cons map_Suc_upt [symmetric] del: upt_Suc)
  have shift': "map (\<lambda>i. (next_object_id t + int i, 0::int)) [0..<Suc (length rs)]
      = (next_object_id t, 0) # map (\<lambda>i. (next_object_id t + 1 + int i, 0)) [0..<length rs]"
    by (simp add: upt_conv_Cons map_Suc_upt [symmetric] del: upt_Suc)
  show ?case
    using IH e shift shift' by simp
qed

lemma register_loop:
  assumes "\<forall>c \<in> set cs. c < length rects"
  shows "for_each (register_col rects) cs t = Inr (fold register (map (\<lambda>c. rects ! c) cs) t)"
  using assms by (induction cs arbitrary: t) (simp_all add: register_col_def)

lemma disappear_row_loop:
  assumes "\<forall>r \<in> set rs. r < length ids"
  shows "for_each (disappear_row ids) rs t = for_each mark_disappeared (map (\<lambda>r. ids ! r) rs) t"
  using assms
proof (induction rs arbitrary: t)
  case Nil
  show ?case by simp
next
  case (Cons r rs)
  have r: "r < length ids" and rs: "\<forall>r \<in> set rs. r < length ids"
    using Cons.prems by simp_all
  show ?case
    using r Cons.IH [OF rs]
    by (cases "mark_disappeared (ids ! r) t") (simp_all add: disappear_row_def)
qed

subsection \<open>The phases of the matching branch\<close>

lemma greedy_pass_facts:
  assumes inv: "tracker_inv t" and ne: "rects \<noteq> []"
    and run: "greedy_pass rects t = Inr (t1, ar, ac)"
  shows "tracker_inv t1" and "map fst (objects t1) = map fst (objects t)"
    and "next_object_id t1 = next_object_id t"
    and "max_disappeared t1 = max_disappeared t" and "max_distance t1 = max_distance t"
    and "ar \<subseteq> {0..<length (objects t)}"
    and "ac = snd ` {p \<in> set (matching_order (distance_matrix rects t)). fst p \<in> ar}"
    and "\<forall>i < length (objects t).
           (fst (matching_order (distance_matrix rects t) ! i) \<in> ar) =
            (distance_matrix rects t ! fst (matching_order (distance_matrix rects t) ! i)
                ! snd (matching_order (distance_matrix rects t) ! i) \<le> max_distance t
             \<and> (\<forall>j < i. fst (matching_order (distance_matrix rects t) ! j) \<in> ar
                   \<longrightarrow> snd (matching_order (distance_matrix rects t) ! j)
                        \<noteq> snd (matching_order (distance_matrix rects t) ! i)))"
    and "\<forall>p \<in> set (matching_order (distance_matrix rects t)). fst p \<in> ar \<longrightarrow>
            map_of (objects t1) (map fst (objects t) ! fst p) = Some (rects ! snd p)
            \<and> map_of (disappeared t1) (map fst (objects t) ! fst p) = Some 0"
    and "\<forall>k. k \<notin> (\<lambda>r. map fst (objects t) ! r) ` ar \<longrightarrow>
            map_of (objects t1) k = map_of (objects t) k
            \<and> map_of (disappeared t1) k = map_of (disappeared t) k"
proof -
  define D where "D = distance_matrix rects t"
  define ids where "ids = map fst (objects t)"
  define ps where "ps = matching_order D"
  have rng: "\<forall>p \<in> set ps. fst p < length D \<and> snd p < length (D ! fst p)
                \<and> fst p < length ids \<and> snd p < length rects"
    unfolding ps_def using matching_order_range [OF ne D_def ids_def] .
  have dist: "distinct (map fst ps)"
    unfolding ps_def by (rule distinct_rows_matching_order)
  have run': "for_each (assign_step D ids rects) ps (t, {}, {}) = Inr (t1, ar, ac)"
    using run by (simp add: greedy_pass_def Let_def D_def ids_def ps_def)
  have lps: "length ps = length (objects t)"
    by (simp add: ps_def D_def)
  have rows: "fst ` set ps = {0..<length (objects t)}"
  proof -
    have "fst ` set ps = set (map fst ps)" by simp
    also have "\<dots> = {0..<length (objects t)}"
      unfolding ps_def rows_matching_order by (simp add: D_def)
    finally show ?thesis .
  qed
  from greedy_loop [OF inv ids_def rng dist]
  obtain t' ar' ac' where
    r: "for_each (assign_step D ids rects) ps (t, {}, {}) = Inr (t', ar', ac')"
    and a: "tracker_inv t'" "map fst (objects t') = ids"
      "next_object_id t' = next_object_id t"
      "max_disappeared t' = max_disappeared t" "max_distance t' = max_distance t"
      "ar' \<subseteq> fst ` set ps"
      "ac' = snd ` {p \<in> set ps. fst p \<in> ar'}"
    and b: "\<forall>i < length ps. (fst (ps ! i) \<in> ar') =
            (D ! fst (ps ! i) ! snd (ps ! i) \<le> max_distance t
             \<and> (\<forall>j < i. fst (ps ! j) \<in> ar' \<longrightarrow> snd (ps ! j) \<noteq> snd (ps ! i)))"
    and c: "\<forall>p \<in> set ps. fst p \<in> ar' \<longrightarrow>
            map_of (objects t') (ids ! fst p) = Some (rects ! snd p)
            \<and> map_of (disappeared t') (ids ! fst p) = Some 0"
    and d: "\<forall>k. k \<notin> (\<lambda>r. ids ! r) ` ar' \<longrightarrow>
            map_of (objects t') k = map_of (objects t) k
            \<and> map_of (disappeared t') k = map_of (disappeared t) k"
    by blast
  have eq: "t' = t1" "ar' = ar" "ac' = ac"
    using r run' by simp_all
  show "tracker_inv t1" using a(1) eq by simp
  show "map fst (objects t1) = map fst (objects t)" using a(2) eq ids_def by simp
  show "next_object_id t1 = next_object_id t" using a(3) eq by simp
  show "max_disappeared t1 = max_disappeared t" using a(4) eq by simp
  show "max_distance t1 = max_distance t" using a(5) eq by simp
  show "ar \<subseteq> {0..<length (objects t)}" using a(6) eq rows by simp
  show "ac = snd ` {p \<in> set (matching_order (distance_matrix rects t)). fst p \<in> ar}"
    using a(7) eq by (simp add: ps_def D_def)
  show "\<forall>i < length (objects t).
           (fst (matching_order (distance_matrix rects t) ! i) \<in> ar) =
            (distance_matrix rects t ! fst (matching_order (distance_matrix rects t) ! i)
                ! snd (matching_order (distance_matrix rects t) ! i) \<le> max_distance t
             \<and> (\<forall>j < i. fst (matching_order (distance_matrix rects t) ! j) \<in> ar
                   \<longrightarrow> snd (matching_order (distance_matrix rects t) ! j)
                        \<noteq> snd (matching_order (distance_matrix rects t) ! i)))"
    using b lps unfolding eq ps_def D_def by simp
  show "\<forall>p \<in> set (matching_order (distance_matrix rects t)). fst p \<in> ar \<longrightarrow>
            map_of (objects t1) (map fst (objects t) ! fst p) = Some (rects ! snd p)
            \<and> map_of (disappeared t1) (map fst (objects t) ! fst p) = Some 0"
    using c unfolding eq ps_def D_def ids_def .
  show "\<forall>k. k \<notin> (\<lambda>r. map fst (objects t) ! r) ` ar \<longrightarrow>
            map_of (objects t1) k = map_of (objects t) k
            \<and> map_of (disappeared t1) k = map_of (disappeared t) k"
    using d unfolding eq ids_def .
qed

lemma greedy_pass_returns:
  assumes inv: "tracker_inv t" and ne: "rects \<noteq> []"
  shows "\<exists>t1 ar ac. greedy_pass rects t = Inr (t1, ar, ac)"
proof -
  define D where "D = distance_matrix rects t"
  define ids where "ids = map fst (objects t)"
  have rng: "\<forall>p \<in> set (matching_order D). fst p < length D \<and> snd p < length (D ! fst p)
                \<and> fst p < length ids \<and> snd p < length rects"
    using matching_order_range [OF ne D_def ids_def] .
  from greedy_loop [OF inv ids_def rng distinct_rows_matching_order]
  show ?thesis
    unfolding greedy_pass_def Let_def D_def ids_def by blast
qed

text \<open>The ids the second loop ages: those of the rows the greedy loop left unassigned.\<close>

lemma unassigned_ids:
  assumes "tracker_inv t"
  shows "distinct (map (\<lambda>r. map fst (objects t) ! r) (filter (\<lambda>r. r \<notin> ar) [0..<length (objects t)]))"
    and "set (map (\<lambda>r. map fst (objects t) ! r) (filter (\<lambda>r. r \<notin> ar) [0..<length (objects t)]))
          \<subseteq> set (map fst (objects t))"
    and "ar \<subseteq> {0..<length (objects t)} \<Longrightarrow>
         set (map (\<lambda>r. map fst (objects t) ! r) (filter (\<lambda>r. r \<notin> ar) [0..<length (objects t)]))
          = set (map fst (objects t)) - (\<lambda>r. map fst (objects t) ! r) ` ar"
proof -
  define ids where "ids = map fst (objects t)"
  have d: "distinct ids" using assms by (simp add: ids_def tracker_inv_distinct)
  have l: "length ids = length (objects t)" by (simp add: ids_def)
  have inj: "inj_on (\<lambda>r. ids ! r) {0..<length ids}"
    using d by (simp add: inj_on_def nth_eq_iff_index_eq)
  have "distinct (map (\<lambda>r. ids ! r) (filter (\<lambda>r. r \<notin> ar) [0..<length ids]))"
    unfolding distinct_map
    by (rule conjI, simp, rule inj_on_subset [OF inj]) auto
  then show "distinct (map (\<lambda>r. map fst (objects t) ! r) (filter (\<lambda>r. r \<notin> ar) [0..<length (objects t)]))"
    by (simp add: ids_def)
  have "set (map (\<lambda>r. ids ! r) (filter (\<lambda>r. r \<notin> ar) [0..<length ids])) \<subseteq> set ids"
    by auto
  then show "set (map (\<lambda>r. map fst (objects t) ! r) (filter (\<lambda>r. r \<notin> ar) [0..<length (objects t)]))
          \<subseteq> set (map fst (objects t))"
    by (simp add: ids_def)
  show "set (map (\<lambda>r. map fst (objects t) ! r) (filter (\<lambda>r. r \<notin> ar) [0..<length (objects t)]))
          = set (map fst (objects t)) - (\<lambda>r. map fst (objects t) ! r) ` ar"
    if sub: "ar \<subseteq> {0..<length (objects t)}"
  proof -
    have "set (map (\<lambda>r. ids ! r) (filter (\<lambda>r. r \<notin> ar) [0..<length ids]))
        = (\<lambda>r. ids ! r) ` ({0..<length ids} - ar)"
      by auto
    also have "\<dots> = (\<lambda>r. ids ! r) ` {0..<length ids} - (\<lambda>r. ids ! r) ` ar"
      using inj sub l by (simp add: inj_on_image_set_diff)
    also have "(\<lambda>r. ids ! r) ` {0..<length ids} = set ids"
      by (metis atLeast_upt map_nth set_map set_upt)
    finally show ?thesis by (simp add: ids_def)
  qed
qed

lemma update_decompose:
  assumes inv: "tracker_inv t" and ne: "rects \<noteq> []" and obj: "objects t \<noteq> []"
  shows "\<exists>t1 ar ac t2. greedy_pass rects t = Inr (t1, ar, ac)
     \<and> for_each mark_disappeared
          (map (\<lambda>r. map fst (objects t) ! r) (filter (\<lambda>r. r \<notin> ar) [0..<length (objects t)])) t1 = Inr t2
     \<and> update rects t
         = Inr (fold register (map (\<lambda>c. rects ! c) (filter (\<lambda>c. c \<notin> ac) [0..<length rects])) t2)"
proof -
  obtain t1 ar ac where g: "greedy_pass rects t = Inr (t1, ar, ac)"
    using greedy_pass_returns [OF inv ne] by blast
  note f = greedy_pass_facts [OF inv ne g]
  define ks where "ks = map (\<lambda>r. map fst (objects t) ! r) (filter (\<lambda>r. r \<notin> ar) [0..<length (objects t)])"
  have "distinct ks" and "set ks \<subseteq> set (map fst (objects t1))"
    unfolding ks_def f(2) using unassigned_ids(1,2) [OF inv] by blast+
  then obtain t2 where a: "for_each mark_disappeared ks t1 = Inr t2"
    using ageing_loop [OF f(1)] by blast
  have rows: "for_each (disappear_row (map fst (objects t)))
        (filter (\<lambda>r. r \<notin> ar) [0..<length (objects t)]) t1 = Inr t2"
    using a unfolding ks_def by (subst disappear_row_loop) simp_all
  have cols: "for_each (register_col rects) (filter (\<lambda>c. c \<notin> ac) [0..<length rects]) t2
      = Inr (fold register (map (\<lambda>c. rects ! c) (filter (\<lambda>c. c \<notin> ac) [0..<length rects])) t2)"
    by (rule register_loop) simp
  have "update rects t
         = Inr (fold register (map (\<lambda>c. rects ! c) (filter (\<lambda>c. c \<notin> ac) [0..<length rects])) t2)"
    using ne obj g rows cols by (simp add: update_def Let_def)
  then show ?thesis
    using g a unfolding ks_def by blast
qed

subsection \<open>Identifiers\<close>

lemma ageing_keys:
  assumes "\<forall>k. map_of (objects t') k =
           (if k \<in> set ks \<and> (\<exists>n. map_of (disappeared t) k = Some n \<and> max_disappeared t < n + 1)
            then None else map_of (objects t) k)"
  shows "set (map fst (objects t')) \<subseteq> set (map fst (objects t))"
proof
  fix k assume "k \<in> set (map fst (objects t'))"
  then have "map_of (objects t') k \<noteq> None"
    unfolding key_iff_map_of .
  then have "map_of (objects t) k \<noteq> None"
    using assms [rule_format, of k] by (simp split: if_splits)
  then show "k \<in> set (map fst (objects t))"
    unfolding key_iff_map_of .
qed

lemma fold_register_keys:
  assumes "tracker_inv t" and "k \<in> set (map fst (objects (fold register rs t)))"
  shows "k \<in> set (map fst (objects t)) \<or> next_object_id t \<le> k"
proof -
  have "objects (fold register rs t)
         = objects t @ zip (map (\<lambda>i. next_object_id t + int i) [0..<length rs]) rs"
    using fold_register [OF assms(1)] by blast
  then have "k \<in> set (map fst (objects t)) \<or> k \<in> set (map (\<lambda>i. next_object_id t + int i) [0..<length rs])"
    using assms(2) by (auto dest: set_zip_leftD)
  then show ?thesis by auto
qed

lemma update_step:
  assumes inv: "tracker_inv t"
  shows "\<exists>t'. update rects t = Inr t' \<and> tracker_inv t'
     \<and> next_object_id t \<le> next_object_id t'
     \<and> max_disappeared t' = max_disappeared t \<and> max_distance t' = max_distance t
     \<and> (\<forall>k \<in> set (map fst (objects t')). k \<in> set (map fst (objects t)) \<or> next_object_id t \<le> k)"
proof (cases "rects = []")
  case True
  have keys: "map fst (disappeared t) = map fst (objects t)"
    using inv by (rule tracker_inv_keys)
  obtain t' where l: "for_each mark_disappeared (map fst (objects t)) t = Inr t'"
    and i: "tracker_inv t'" and f: "next_object_id t' = next_object_id t"
      "max_disappeared t' = max_disappeared t" "max_distance t' = max_distance t"
    and o: "\<forall>k. map_of (objects t') k =
           (if k \<in> set (map fst (objects t)) \<and> (\<exists>n. map_of (disappeared t) k = Some n \<and> max_disappeared t < n + 1)
            then None else map_of (objects t) k)"
    using ageing_loop [OF inv tracker_inv_distinct [OF inv] subset_refl] by blast
  have "update rects t = Inr t'"
    using True l by (simp add: update_def keys)
  then show ?thesis
    using i f ageing_keys [OF o] by auto
next
  case ne: False
  show ?thesis
  proof (cases "objects t = []")
    case True
    have u: "update rects t = Inr (fold register rects t)"
      using ne True by (simp add: update_def)
    note fr = fold_register [OF inv, of rects]
    have n: "next_object_id t \<le> next_object_id (fold register rects t)"
      using fr by simp
    have i: "tracker_inv (fold register rects t)"
      and m: "max_disappeared (fold register rects t) = max_disappeared t"
        "max_distance (fold register rects t) = max_distance t"
      using fr by blast+
    have k: "\<forall>k \<in> set (map fst (objects (fold register rects t))).
             k \<in> set (map fst (objects t)) \<or> next_object_id t \<le> k"
      using fold_register_keys [OF inv] by blast
    show ?thesis
      using u n i m k by blast
  next
    case obj: False
    obtain t1 ar ac t2 where g: "greedy_pass rects t = Inr (t1, ar, ac)"
      and a: "for_each mark_disappeared
          (map (\<lambda>r. map fst (objects t) ! r) (filter (\<lambda>r. r \<notin> ar) [0..<length (objects t)])) t1 = Inr t2"
      and u: "update rects t
         = Inr (fold register (map (\<lambda>c. rects ! c) (filter (\<lambda>c. c \<notin> ac) [0..<length rects])) t2)"
      using update_decompose [OF inv ne obj] by blast
    note gf = greedy_pass_facts [OF inv ne g]
    define ks where "ks = map (\<lambda>r. map fst (objects t) ! r) (filter (\<lambda>r. r \<notin> ar) [0..<length (objects t)])"
    have dk: "distinct ks" and sk: "set ks \<subseteq> set (map fst (objects t1))"
      unfolding ks_def gf(2) using unassigned_ids(1,2) [OF inv] by blast+
    obtain t2' where l: "for_each mark_disappeared ks t1 = Inr t2'"
      and i2: "tracker_inv t2'" and f2: "next_object_id t2' = next_object_id t1"
        "max_disappeared t2' = max_disappeared t1" "max_distance t2' = max_distance t1"
      and o2: "\<forall>k. map_of (objects t2') k =
           (if k \<in> set ks \<and> (\<exists>n. map_of (disappeared t1) k = Some n \<and> max_disappeared t1 < n + 1)
            then None else map_of (objects t1) k)"
      using ageing_loop [OF gf(1) dk sk] by blast
    have e: "t2' = t2" using l a by (simp add: ks_def)
    have k2: "set (map fst (objects t2)) \<subseteq> set (map fst (objects t))"
      using ageing_keys [OF o2] gf(2) e by simp
    define rs where "rs = map (\<lambda>c. rects ! c) (filter (\<lambda>c. c \<notin> ac) [0..<length rects])"
    have i2': "tracker_inv t2" using i2 e by simp
    have n2: "next_object_id t2 = next_object_id t" using f2 gf(3) e by simp
    have m2: "max_disappeared t2 = max_disappeared t" "max_distance t2 = max_distance t"
      using f2 gf(4,5) e by simp_all
    have "\<forall>k \<in> set (map fst (objects (fold register rs t2))).
             k \<in> set (map fst (objects t)) \<or> next_object_id t \<le> k"
    proof
      fix k assume "k \<in> set (map fst (objects (fold register rs t2)))"
      then have "k \<in> set (map fst (objects t2)) \<or> next_object_id t2 \<le> k"
        by (rule fold_register_keys [OF i2'])
      then show "k \<in> set (map fst (objects t)) \<or> next_object_id t \<le> k"
        using k2 n2 by auto
    qed
    moreover have "next_object_id t \<le> next_object_id (fold register rs t2)"
      using fold_register [OF i2', of rs] n2 by simp
    moreover have "tracker_inv (fold register rs t2)"
      and "max_disappeared (fold register rs t2) = max_disappeared t"
      and "max_distance (fold register rs t2) = max_distance t"
      using fold_register [OF i2', of rs] m2 by simp_all
    ultimately show ?thesis
      using u unfolding rs_def by blast
  qed
qed

lemma tracker_inv_init: "tracker_inv (CentroidTracker md mdist)"
  by (simp add: tracker_inv_def CentroidTracker_def)

lemma states_facts:
  assumes "tracker_inv t"
  shows "length (states calls t) = length calls + 1
     \<and> (\<forall>s \<in> set (states calls t). tracker_inv s)
     \<and> (\<forall>j < length calls. update (calls ! j) (states calls t ! j) = Inr (states calls t ! Suc j))"
  using assms
proof (induction calls arbitrary: t)
  case Nil
  then show ?case by simp
next
  case (Cons rects calls)
  obtain t' where u: "update rects t = Inr t'" and i: "tracker_inv t'"
    using update_step [OF Cons.prems] by blast
  note IH = Cons.IH [OF i]
  have s: "states (rects # calls) t = t # states calls t'"
    using u by simp
  have "\<forall>j < length (rects # calls).
      update ((rects # calls) ! j) ((t # states calls t') ! j) = Inr ((t # states calls t') ! Suc j)"
  proof (intro allI impI)
    fix j assume j: "j < length (rects # calls)"
    show "update ((rects # calls) ! j) ((t # states calls t') ! j) = Inr ((t # states calls t') ! Suc j)"
    proof (cases j)
      case 0
      have "states calls t' ! 0 = t'" by (cases calls) (simp_all split: sum.splits)
      then show ?thesis using 0 u by simp
    next
      case (Suc j')
      then show ?thesis using IH j by simp
    qed
  qed
  then show ?case
    unfolding s using IH Cons.prems by simp
qed

lemma states_counter_mono:
  assumes "tracker_inv t" and "i \<le> j" and "j \<le> length calls"
  shows "next_object_id (states calls t ! i) \<le> next_object_id (states calls t ! j)"
  using assms(2,3)
proof (induction j)
  case 0
  then show ?case by simp
next
  case (Suc j)
  note sf = states_facts [OF assms(1), of calls]
  have jl: "j < length calls" using Suc.prems by simp
  have invj: "tracker_inv (states calls t ! j)"
    using sf jl by simp
  have "update (calls ! j) (states calls t ! j) = Inr (states calls t ! Suc j)"
    using sf jl by blast
  then have step: "next_object_id (states calls t ! j) \<le> next_object_id (states calls t ! Suc j)"
    using update_step [OF invj, of "calls ! j"] by auto
  show ?case
  proof (cases "i = Suc j")
    case True
    then show ?thesis by simp
  next
    case False
    then have "i \<le> j" using Suc.prems by simp
    then show ?thesis using Suc.IH jl step by simp
  qed
qed

text \<open>
  C5. Over any sequence of \<open>update\<close> calls on a fresh tracker no call raises, the
  dictionary lists its ids in ascending order (the order of registration), and an id
  that a call registers is greater than every id held by any earlier state: ids grow
  strictly and an id that was given once, deregistered or not, is never given again.
\<close>

theorem ids_increase_never_reused:
  "length (states calls (CentroidTracker md mdist)) = length calls + 1
   \<and> (\<forall>s \<in> set (states calls (CentroidTracker md mdist)). sorted_wrt (<) (map fst (objects s)))
   \<and> (\<forall>j < length calls.
        \<forall>k \<in> set (map fst (objects (states calls (CentroidTracker md mdist) ! Suc j)))
              - set (map fst (objects (states calls (CentroidTracker md mdist) ! j))).
        \<forall>i \<le> j. \<forall>k' \<in> set (map fst (objects (states calls (CentroidTracker md mdist) ! i))).
          k' < k)"
proof -
  define tr where "tr = states calls (CentroidTracker md mdist)"
  have inv0: "tracker_inv (CentroidTracker md mdist)"
    by (rule tracker_inv_init)
  note sf = states_facts [OF inv0, of calls, folded tr_def]
  have len: "length tr = length calls + 1" using sf by simp
  have invs: "\<forall>s \<in> set tr. tracker_inv s" using sf by simp
  have sorted: "\<forall>s \<in> set tr. sorted_wrt (<) (map fst (objects s))"
    using invs by (simp add: tracker_inv_def)
  have new: "k' < k"
    if j: "j < length calls" and k: "k \<in> set (map fst (objects (tr ! Suc j)))"
      and nk: "k \<notin> set (map fst (objects (tr ! j)))" and i: "i \<le> j"
      and k': "k' \<in> set (map fst (objects (tr ! i)))" for i j k k'
  proof -
    have "tr ! i \<in> set tr" using i j len by simp
    then have "tracker_inv (tr ! i)" using invs by blast
    then have a: "k' < next_object_id (tr ! i)"
      using k' unfolding tracker_inv_def by blast
    have b: "next_object_id (tr ! i) \<le> next_object_id (tr ! j)"
      unfolding tr_def using states_counter_mono [OF inv0 i] j by simp
    have "tr ! j \<in> set tr" using j len by simp
    then have invj: "tracker_inv (tr ! j)" using invs by blast
    have "update (calls ! j) (tr ! j) = Inr (tr ! Suc j)"
      using sf j by blast
    then have "k \<in> set (map fst (objects (tr ! j))) \<or> next_object_id (tr ! j) \<le> k"
      using update_step [OF invj, of "calls ! j"] k by auto
    then have "next_object_id (tr ! j) \<le> k" using nk by simp
    then show ?thesis using a b by simp
  qed
  show ?thesis
    unfolding tr_def [symmetric] using len sorted new by blast
qed

theorem ids_increase_never_reused_witness:
  "map (\<lambda>s. map fst (objects s))
     (states [[(100, 100, 50, 50)], [], [(100, 100, 50, 50), (300, 100, 50, 50)]] (CentroidTracker 0 80))
   = [[], [0], [], [1, 2]]"
  using ids_increase_never_reused [of "[[(100, 100, 50, 50)], [], [(100, 100, 50, 50), (300, 100, 50, 50)]]" 0 80]
  by (simp add: CentroidTracker_def update_def register_def mark_disappeared_def deregister_def)

subsection \<open>What registration leaves and adds\<close>

lemma fold_register_old:
  assumes inv: "tracker_inv t" and k: "k < next_object_id t"
  shows "map_of (objects (fold register rs t)) k = map_of (objects t) k"
    and "map_of (disappeared (fold register rs t)) k = map_of (disappeared t) k"
proof -
  note fr = fold_register [OF inv, of rs]
  have o: "objects (fold register rs t)
         = objects t @ zip (map (\<lambda>i. next_object_id t + int i) [0..<length rs]) rs"
    and d: "disappeared (fold register rs t)
         = disappeared t @ map (\<lambda>i. (next_object_id t + int i, 0)) [0..<length rs]"
    using fr by blast+
  have "k \<notin> set (map (\<lambda>i. next_object_id t + int i) [0..<length rs])"
    using k by auto
  then have "k \<notin> fst ` set (zip (map (\<lambda>i. next_object_id t + int i) [0..<length rs]) rs)"
    by (metis (no_types, lifting) imageE set_zip_leftD prod.collapse)
  then have z: "map_of (zip (map (\<lambda>i. next_object_id t + int i) [0..<length rs]) rs) k = None"
    by (simp add: map_of_eq_None_iff)
  show "map_of (objects (fold register rs t)) k = map_of (objects t) k"
    unfolding o map_of_append by (simp add: z map_add_def split: option.split)
  have "k \<notin> fst ` set (map (\<lambda>i. (next_object_id t + int i, 0::int)) [0..<length rs])"
    using k by auto
  then have z': "map_of (map (\<lambda>i. (next_object_id t + int i, 0::int)) [0..<length rs]) k = None"
    by (simp add: map_of_eq_None_iff)
  show "map_of (disappeared (fold register rs t)) k = map_of (disappeared t) k"
    unfolding d map_of_append by (simp add: z' map_add_def split: option.split)
qed

lemma fold_register_new:
  assumes inv: "tracker_inv t" and i: "i < length rs"
  shows "map_of (objects (fold register rs t)) (next_object_id t + int i) = Some (rs ! i)"
    and "map_of (disappeared (fold register rs t)) (next_object_id t + int i) = Some 0"
    and "next_object_id t + int i \<notin> set (map fst (objects t))"
proof -
  note fr = fold_register [OF inv, of rs]
  have o: "objects (fold register rs t)
         = objects t @ zip (map (\<lambda>i. next_object_id t + int i) [0..<length rs]) rs"
    and d: "disappeared (fold register rs t)
         = disappeared t @ map (\<lambda>i. (next_object_id t + int i, 0)) [0..<length rs]"
    using fr by blast+
  show fresh: "next_object_id t + int i \<notin> set (map fst (objects t))"
    using inv unfolding tracker_inv_def by force
  then have no: "map_of (objects t) (next_object_id t + int i) = None"
    by (simp add: map_of_eq_None_iff)
  have "next_object_id t + int i \<notin> set (map fst (disappeared t))"
    using fresh inv by (simp add: tracker_inv_def)
  then have nd: "map_of (disappeared t) (next_object_id t + int i) = None"
    by (simp add: map_of_eq_None_iff)
  have dist: "distinct (map (\<lambda>i. next_object_id t + int i) [0..<length rs])"
    by (simp add: distinct_map inj_on_def)
  have "map_of (zip (map (\<lambda>i. next_object_id t + int i) [0..<length rs]) rs)
          (map (\<lambda>i. next_object_id t + int i) [0..<length rs] ! i) = Some (rs ! i)"
    by (rule map_of_zip_nth) (simp_all add: dist i)
  then have z: "map_of (zip (map (\<lambda>i. next_object_id t + int i) [0..<length rs]) rs)
          (next_object_id t + int i) = Some (rs ! i)"
    using i by simp
  show "map_of (objects (fold register rs t)) (next_object_id t + int i) = Some (rs ! i)"
    unfolding o map_of_append by (simp add: z no map_add_def split: option.split)
  have "(next_object_id t + int i, 0::int) \<in> set (map (\<lambda>i. (next_object_id t + int i, 0::int)) [0..<length rs])"
    using i by simp
  moreover have "distinct (map fst (map (\<lambda>i. (next_object_id t + int i, 0::int)) [0..<length rs]))"
    by (simp add: distinct_map inj_on_def comp_def)
  ultimately have z': "map_of (map (\<lambda>i. (next_object_id t + int i, 0::int)) [0..<length rs])
      (next_object_id t + int i) = Some 0"
    by (rule map_of_is_SomeI [rotated])
  show "map_of (disappeared (fold register rs t)) (next_object_id t + int i) = Some 0"
    unfolding d map_of_append by (simp add: z' nd map_add_def split: option.split)
qed

subsection \<open>The outcome of the matching branch\<close>

lemma update_outcome:
  assumes inv: "tracker_inv t" and ne: "rects \<noteq> []" and obj: "objects t \<noteq> []"
    and g: "greedy_pass rects t = Inr (t1, ar, ac)"
  shows "\<exists>t'. update rects t = Inr t'
     \<and> max_disappeared t' = max_disappeared t \<and> max_distance t' = max_distance t
     \<and> (\<forall>p \<in> set (matching_order (distance_matrix rects t)). fst p \<in> ar \<longrightarrow>
            map_of (objects t') (fst (objects t ! fst p)) = Some (rects ! snd p)
            \<and> map_of (disappeared t') (fst (objects t ! fst p)) = Some 0)
     \<and> (\<forall>r < length (objects t). r \<notin> ar \<longrightarrow>
            (\<exists>n. map_of (disappeared t) (fst (objects t ! r)) = Some n
              \<and> (if max_disappeared t < n + 1
                  then map_of (objects t') (fst (objects t ! r)) = None
                       \<and> map_of (disappeared t') (fst (objects t ! r)) = None
                  else map_of (objects t') (fst (objects t ! r)) = Some (snd (objects t ! r))
                       \<and> map_of (disappeared t') (fst (objects t ! r)) = Some (n + 1))))
     \<and> next_object_id t' = next_object_id t + int (length (filter (\<lambda>c. c \<notin> ac) [0..<length rects]))
     \<and> (\<forall>i < length (filter (\<lambda>c. c \<notin> ac) [0..<length rects]).
            map_of (objects t') (next_object_id t + int i)
               = Some (rects ! (filter (\<lambda>c. c \<notin> ac) [0..<length rects] ! i))
            \<and> map_of (disappeared t') (next_object_id t + int i) = Some 0
            \<and> next_object_id t + int i \<notin> set (map fst (objects t)))"
proof -
  define ids where "ids = map fst (objects t)"
  define ks where "ks = map (\<lambda>r. ids ! r) (filter (\<lambda>r. r \<notin> ar) [0..<length (objects t)])"
  define cs where "cs = filter (\<lambda>c. c \<notin> ac) [0..<length rects]"
  define rs where "rs = map (\<lambda>c. rects ! c) cs"
  note gf = greedy_pass_facts [OF inv ne g, folded ids_def]
  obtain t1' ar' ac' t2 where g': "greedy_pass rects t = Inr (t1', ar', ac')"
    and a: "for_each mark_disappeared
          (map (\<lambda>r. map fst (objects t) ! r) (filter (\<lambda>r. r \<notin> ar') [0..<length (objects t)])) t1' = Inr t2"
    and u: "update rects t
         = Inr (fold register (map (\<lambda>c. rects ! c) (filter (\<lambda>c. c \<notin> ac') [0..<length rects])) t2)"
    using update_decompose [OF inv ne obj] by blast
  have eq: "t1' = t1" "ar' = ar" "ac' = ac" using g g' by simp_all
  have a': "for_each mark_disappeared ks t1 = Inr t2"
    using a unfolding eq ks_def ids_def .
  have u': "update rects t = Inr (fold register rs t2)"
    using u unfolding eq rs_def cs_def .
  have dk: "distinct ks" and sk: "set ks \<subseteq> set (map fst (objects t1))"
    and ksset: "set ks = set ids - (\<lambda>r. ids ! r) ` ar"
    unfolding ks_def ids_def gf(2) [unfolded ids_def]
    using unassigned_ids [OF inv, of ar] gf(6) by blast+
  obtain t2' where l: "for_each mark_disappeared ks t1 = Inr t2'"
    and i2: "tracker_inv t2'" and f2: "next_object_id t2' = next_object_id t1"
      "max_disappeared t2' = max_disappeared t1" "max_distance t2' = max_distance t1"
    and o2: "\<forall>k. map_of (objects t2') k =
           (if k \<in> set ks \<and> (\<exists>n. map_of (disappeared t1) k = Some n \<and> max_disappeared t1 < n + 1)
            then None else map_of (objects t1) k)"
    and d2: "\<forall>k. map_of (disappeared t2') k =
           (if k \<in> set ks
            then (case map_of (disappeared t1) k of None \<Rightarrow> None
                  | Some n \<Rightarrow> if max_disappeared t1 < n + 1 then None else Some (n + 1))
            else map_of (disappeared t1) k)"
    using ageing_loop [OF gf(1) dk sk] by blast
  have e2: "t2' = t2" using l a' by simp
  have inv2: "tracker_inv t2" using i2 e2 by simp
  have n2: "next_object_id t2 = next_object_id t" using f2 gf(3) e2 by simp
  have m2: "max_disappeared t2 = max_disappeared t" "max_distance t2 = max_distance t"
    using f2 gf(4,5) e2 by simp_all
  define t' where "t' = fold register rs t2"
  note fr = fold_register [OF inv2, of rs, folded t'_def]
  have old: "map_of (objects t') k = map_of (objects t2) k"
            "map_of (disappeared t') k = map_of (disappeared t2) k"
    if "k \<in> set ids" for k
  proof -
    have "k < next_object_id t2"
      using that inv n2 unfolding tracker_inv_def ids_def by auto
    then show "map_of (objects t') k = map_of (objects t2) k"
      "map_of (disappeared t') k = map_of (disappeared t2) k"
      unfolding t'_def using fold_register_old [OF inv2] by blast+
  qed
  have dist: "distinct ids" using inv by (simp add: ids_def tracker_inv_distinct)
  have lids: "length ids = length (objects t)" by (simp add: ids_def)
  have idr: "ids ! r = fst (objects t ! r)" if "r < length (objects t)" for r
    using that by (simp add: ids_def)
  have assigned: "map_of (objects t') (fst (objects t ! fst p)) = Some (rects ! snd p)
            \<and> map_of (disappeared t') (fst (objects t ! fst p)) = Some 0"
    if p: "p \<in> set (matching_order (distance_matrix rects t))" and pa: "fst p \<in> ar" for p
  proof -
    have r: "fst p < length (objects t)" using pa gf(6) by auto
    have kin: "ids ! fst p \<in> set ids" using r lids by simp
    have "ids ! fst p \<in> (\<lambda>r. ids ! r) ` ar" using pa by blast
    then have nks: "ids ! fst p \<notin> set ks" using ksset by blast
    have "map_of (objects t1) (ids ! fst p) = Some (rects ! snd p)"
      and "map_of (disappeared t1) (ids ! fst p) = Some 0"
      using gf(9) p pa by blast+
    then have "map_of (objects t2) (ids ! fst p) = Some (rects ! snd p)"
      and "map_of (disappeared t2) (ids ! fst p) = Some 0"
      using o2 d2 nks e2 by simp_all
    then show ?thesis
      using old [OF kin] idr [OF r] by simp
  qed
  have unassigned: "\<exists>n. map_of (disappeared t) (fst (objects t ! r)) = Some n
              \<and> (if max_disappeared t < n + 1
                  then map_of (objects t') (fst (objects t ! r)) = None
                       \<and> map_of (disappeared t') (fst (objects t ! r)) = None
                  else map_of (objects t') (fst (objects t ! r)) = Some (snd (objects t ! r))
                       \<and> map_of (disappeared t') (fst (objects t ! r)) = Some (n + 1))"
    if r: "r < length (objects t)" and ra: "r \<notin> ar" for r
  proof -
    define k where "k = ids ! r"
    have kin: "k \<in> set ids" using r lids by (simp add: k_def)
    have "k \<notin> (\<lambda>r. ids ! r) ` ar"
    proof
      assume "k \<in> (\<lambda>r. ids ! r) ` ar"
      then obtain r' where r': "r' \<in> ar" "ids ! r' = ids ! r" unfolding k_def by auto
      then have "r' < length ids" using gf(6) lids by auto
      then have "r' = r" using r'(2) r lids dist by (simp add: nth_eq_iff_index_eq)
      then show False using r'(1) ra by simp
    qed
    then have kks: "k \<in> set ks" and same: "map_of (objects t1) k = map_of (objects t) k"
        "map_of (disappeared t1) k = map_of (disappeared t) k"
      using ksset kin gf(10) by blast+
    obtain n where n: "map_of (disappeared t) k = Some n"
      using tracker_inv_count [OF inv] kin unfolding ids_def by blast
    have "(k, snd (objects t ! r)) \<in> set (objects t)"
      using r by (simp add: k_def ids_def)
    then have b: "map_of (objects t) k = Some (snd (objects t ! r))"
      using dist unfolding ids_def by simp
    have "map_of (objects t2) k = (if max_disappeared t < n + 1 then None else Some (snd (objects t ! r)))"
      using o2 [rule_format, of k] kks same n b e2 gf(4) by simp
    moreover have "map_of (disappeared t2) k = (if max_disappeared t < n + 1 then None else Some (n + 1))"
      using d2 [rule_format, of k] kks same n e2 gf(4) by simp
    ultimately show ?thesis
      using n old [OF kin] idr [OF r] unfolding k_def by simp
  qed
  have lrs: "length rs = length cs" by (simp add: rs_def)
  have nid: "next_object_id t' = next_object_id t + int (length cs)"
    using fr n2 lrs by simp
  have new: "map_of (objects t') (next_object_id t + int i) = Some (rects ! (cs ! i))
            \<and> map_of (disappeared t') (next_object_id t + int i) = Some 0
            \<and> next_object_id t + int i \<notin> set (map fst (objects t))"
    if i: "i < length cs" for i
  proof -
    have irs: "i < length rs" using i lrs by simp
    have "next_object_id t + int i \<notin> set (map fst (objects t))"
      using inv unfolding tracker_inv_def by force
    moreover have "rs ! i = rects ! (cs ! i)" using i by (simp add: rs_def)
    ultimately show ?thesis
      using fold_register_new(1,2) [OF inv2 irs] n2 unfolding t'_def by simp
  qed
  have "max_disappeared t' = max_disappeared t" "max_distance t' = max_distance t"
    using fr m2 by simp_all
  then show ?thesis
    using u' assigned unassigned nid new unfolding t'_def [symmetric] cs_def by blast
qed

subsection \<open>Evaluating distances\<close>

lemma euclid_le_iff:
  "(euclid a b \<le> euclid c d) =
     ((fst a - fst b)\<^sup>2 + (snd a - snd b)\<^sup>2 \<le> (fst c - fst d)\<^sup>2 + (snd c - snd d)\<^sup>2)"
  unfolding euclid_def real_sqrt_le_iff of_int_le_iff ..

lemma euclid_less_iff:
  "(euclid a b < euclid c d) =
     ((fst a - fst b)\<^sup>2 + (snd a - snd b)\<^sup>2 < (fst c - fst d)\<^sup>2 + (snd c - snd d)\<^sup>2)"
  unfolding euclid_def real_sqrt_less_iff of_int_less_iff ..

lemma euclid_eq_iff:
  "(euclid a b = euclid c d) =
     ((fst a - fst b)\<^sup>2 + (snd a - snd b)\<^sup>2 = (fst c - fst d)\<^sup>2 + (snd c - snd d)\<^sup>2)"
  unfolding euclid_def real_sqrt_eq_iff of_int_eq_iff ..

lemma euclid_gt_iff:
  assumes "0 \<le> m"
  shows "(m < euclid a b) = (m\<^sup>2 < of_int ((fst a - fst b)\<^sup>2 + (snd a - snd b)\<^sup>2))"
proof -
  have "m = sqrt (m\<^sup>2)" using assms by simp
  then have "(m < euclid a b) = (sqrt (m\<^sup>2) < euclid a b)" by simp
  also have "\<dots> = (m\<^sup>2 < of_int ((fst a - fst b)\<^sup>2 + (snd a - snd b)\<^sup>2))"
    unfolding euclid_def by (rule real_sqrt_less_iff)
  finally show ?thesis .
qed

lemmas run_update =
  update_def greedy_pass_def matching_order_def distance_matrix_def compute_centroids_def
  pairwise_distances_def argsort_def assign_step_def disappear_row_def register_col_def
  mark_disappeared_def register_def deregister_def Let_def

subsection \<open>Unmatched objects and unmatched detections\<close>



subsection \<open>Small motion\<close>

lemma matching_order_pairs:
  assumes "tracker_inv t" and "rects \<noteq> []" and "p \<in> set (matching_order (distance_matrix rects t))"
  shows "fst p < length (objects t)" and "snd p < length rects"
    and "\<forall>c < length rects. distance_matrix rects t ! fst p ! snd p \<le> distance_matrix rects t ! fst p ! c"
proof -
  define D where "D = distance_matrix rects t"
  have p: "p \<in> set (matching_order D)" using assms(3) by (simp add: D_def)
  have r: "fst p < length D" and c: "snd p = argmin (D ! fst p)"
    using cols_matching_order [OF p] by simp_all
  show ro: "fst p < length (objects t)" using r by (simp add: D_def)
  have len: "length (D ! fst p) = length rects"
    using ro by (simp add: D_def)
  then have ne: "D ! fst p \<noteq> []" using assms(2) by auto
  note am = argmin_props [OF ne]
  show "snd p < length rects" using am c len by simp
  show "\<forall>c < length rects. distance_matrix rects t ! fst p ! snd p \<le> distance_matrix rects t ! fst p ! c"
  proof (intro allI impI)
    fix c' assume "c' < length rects"
    then have "min_list (D ! fst p) \<le> D ! fst p ! c'"
      using len by (simp add: min_list_le)
    then show "distance_matrix rects t ! fst p ! snd p \<le> distance_matrix rects t ! fst p ! c'"
      using am c by (simp add: D_def)
  qed
qed

lemma matching_order_row:
  assumes "r < length D"
  shows "\<exists>i < length D. fst (matching_order D ! i) = r"
proof -
  have "r \<in> set (map fst (matching_order D))"
    unfolding rows_matching_order using assms by simp
  then obtain i where "i < length (map fst (matching_order D))" "map fst (matching_order D) ! i = r"
    by (meson in_set_conv_nth)
  then show ?thesis by auto
qed

lemma update_keys_old:
  assumes inv: "tracker_inv t" and u: "update rects t = Inr t'"
    and n: "next_object_id t' = next_object_id t"
  shows "set (map fst (objects t')) \<subseteq> set (map fst (objects t))"
proof
  fix k assume k: "k \<in> set (map fst (objects t'))"
  obtain t'' where u': "update rects t = Inr t''" and i: "tracker_inv t''"
    and o: "\<forall>k \<in> set (map fst (objects t'')). k \<in> set (map fst (objects t)) \<or> next_object_id t \<le> k"
    using update_step [OF inv, of rects] by blast
  have e: "t'' = t'" using u u' by simp
  have "k < next_object_id t'" using i k e unfolding tracker_inv_def by blast
  then show "k \<in> set (map fst (objects t))"
    using o k e n by auto
qed

lemma euclid_within_iff:
  assumes "0 \<le> m"
  shows "(euclid a b \<le> m) = (of_int ((fst a - fst b)\<^sup>2 + (snd a - snd b)\<^sup>2) \<le> m\<^sup>2)"
  using euclid_gt_iff [OF assms, of a b] by auto

text \<open>
  C2 (amended). When every detection has exactly one tracked centroid within
  \<open>max_distance\<close>, and no two detections have the same one, \<open>update\<close> creates no id:
  the counter stays and every returned id was an id before. Each object so matched takes
  the box of its detection with count \<open>0\<close>. An object with no detection within
  \<open>max_distance\<close> ages like any unmatched object and leaves the mapping when its count
  exceeds \<open>max_disappeared\<close>; with as many detections as objects there is none, and the
  ids are those before the call.
\<close>

theorem small_motion_keeps_ids:
  assumes inv: "tracker_inv t" and ne: "rects \<noteq> []"
    and one: "\<forall>c < length rects. \<exists>!r. r < length (objects t)
               \<and> euclid (centroid (snd (objects t ! r))) (centroid (rects ! c)) \<le> max_distance t"
    and inj: "\<forall>r < length (objects t). \<forall>c < length rects. \<forall>c' < length rects.
               euclid (centroid (snd (objects t ! r))) (centroid (rects ! c)) \<le> max_distance t
               \<and> euclid (centroid (snd (objects t ! r))) (centroid (rects ! c')) \<le> max_distance t
               \<longrightarrow> c = c'"
  shows "\<exists>t'. update rects t = Inr t'
     \<and> next_object_id t' = next_object_id t
     \<and> set (map fst (objects t')) \<subseteq> set (map fst (objects t))
     \<and> (\<forall>r < length (objects t). \<forall>c < length rects.
           euclid (centroid (snd (objects t ! r))) (centroid (rects ! c)) \<le> max_distance t \<longrightarrow>
           map_of (objects t') (fst (objects t ! r)) = Some (rects ! c)
           \<and> map_of (disappeared t') (fst (objects t ! r)) = Some 0)
     \<and> (\<forall>r < length (objects t).
           (\<forall>c < length rects.
              max_distance t < euclid (centroid (snd (objects t ! r))) (centroid (rects ! c))) \<longrightarrow>
           (\<exists>n. map_of (disappeared t) (fst (objects t ! r)) = Some n
              \<and> (if max_disappeared t < n + 1
                  then map_of (objects t') (fst (objects t ! r)) = None
                  else map_of (objects t') (fst (objects t ! r)) = Some (snd (objects t ! r))
                       \<and> map_of (disappeared t') (fst (objects t ! r)) = Some (n + 1))))
     \<and> (length rects = length (objects t) \<longrightarrow>
           set (map fst (objects t')) = set (map fst (objects t)))"
proof -
  define D where "D = distance_matrix rects t"
  define ps where "ps = matching_order D"
  define n where "n = length (objects t)"
  define m where "m = length rects"
  define near where "near r c = (D ! r ! c \<le> max_distance t)" for r c
  have Dnth: "D ! r ! c = euclid (centroid (snd (objects t ! r))) (centroid (rects ! c))"
    if "r < n" "c < m" for r c
    using that unfolding D_def n_def m_def by (rule distance_matrix_nth)
  have one': "\<exists>!r. r < n \<and> near r c" if c: "c < m" for c
  proof -
    have "\<exists>!r. r < n \<and> euclid (centroid (snd (objects t ! r))) (centroid (rects ! c)) \<le> max_distance t"
      using one c unfolding n_def m_def by blast
    moreover have "(r < n \<and> euclid (centroid (snd (objects t ! r))) (centroid (rects ! c)) \<le> max_distance t)
        = (r < n \<and> near r c)" for r
      using Dnth [of r c] c unfolding near_def by auto
    ultimately show ?thesis by simp
  qed
  have inj': "c = c'" if "r < n" "c < m" "c' < m" "near r c" "near r c'" for r c c'
    using inj that Dnth [of r c] Dnth [of r c'] unfolding near_def n_def m_def by auto
  have mpos: "0 < m" using ne by (simp add: m_def)
  obtain r0 where "r0 < n" using one' [OF mpos] by blast
  then have obj: "objects t \<noteq> []" by (auto simp: n_def)
  obtain t1 ar ac where g: "greedy_pass rects t = Inr (t1, ar, ac)"
    using greedy_pass_returns [OF inv ne] by blast
  note gf = greedy_pass_facts [OF inv ne g, folded D_def, folded ps_def, folded n_def]
  have lps: "length ps = n" by (simp add: ps_def D_def n_def)
  have pair: "fst p < n \<and> snd p < m \<and> (\<forall>c < m. D ! fst p ! snd p \<le> D ! fst p ! c)"
    if "p \<in> set ps" for p
    using matching_order_pairs [OF inv ne, of p] that unfolding ps_def D_def n_def m_def by blast
  have col: "snd p = c" if p: "p \<in> set ps" and c: "c < m" and w: "near (fst p) c" for p c
  proof -
    have "D ! fst p ! snd p \<le> D ! fst p ! c" using pair [OF p] c by blast
    then have "near (fst p) (snd p)" using w unfolding near_def by simp
    then show ?thesis using inj' pair [OF p] c w by blast
  qed
  have dist: "distinct (map fst ps)"
    unfolding ps_def by (rule distinct_rows_matching_order)
  have A: "(fst (ps ! i) \<in> ar) = near (fst (ps ! i)) (snd (ps ! i))" if i: "i < n" for i
  proof -
    have pin: "ps ! i \<in> set ps" using i lps by simp
    have ci: "snd (ps ! i) < m" using pair [OF pin] by simp
    have "\<forall>j < i. fst (ps ! j) \<in> ar \<longrightarrow> snd (ps ! j) \<noteq> snd (ps ! i)"
      if w: "near (fst (ps ! i)) (snd (ps ! i))"
    proof (intro allI impI notI)
      fix j assume j: "j < i" and ja: "fst (ps ! j) \<in> ar" and s: "snd (ps ! j) = snd (ps ! i)"
      have jn: "j < n" using j i by simp
      have pj: "ps ! j \<in> set ps" using jn lps by simp
      have "near (fst (ps ! j)) (snd (ps ! j))"
        using gf(8) [rule_format, OF jn] ja unfolding near_def by simp
      then have "near (fst (ps ! j)) (snd (ps ! i))" using s by simp
      moreover have "fst (ps ! j) < n" "fst (ps ! i) < n" using pair [OF pj] pair [OF pin] by simp_all
      ultimately have "fst (ps ! j) = fst (ps ! i)"
        using one' [OF ci] w by blast
      then have "j = i"
        using nth_eq_iff_index_eq [OF dist, of j i] jn i lps by simp
      then show False using j by simp
    qed
    then show ?thesis
      using gf(8) [rule_format, OF i] unfolding near_def by blast
  qed
  have rowidx: "\<exists>i < n. fst (ps ! i) = r" if "r < n" for r
    using matching_order_row [of r D] that unfolding ps_def by (simp add: D_def n_def)
  have matched: "r \<in> ar \<and> (r, c) \<in> set ps" if r: "r < n" and c: "c < m" and w: "near r c" for r c
  proof -
    obtain i where i: "i < n" "fst (ps ! i) = r" using rowidx [OF r] by blast
    have pin: "ps ! i \<in> set ps" using i lps by simp
    have s: "snd (ps ! i) = c" using col [OF pin c] w i by simp
    have "r \<in> ar" using A [OF i(1)] w i s by simp
    moreover have "ps ! i = (r, c)" using i s by (simp add: prod_eq_iff)
    ultimately show ?thesis using pin by simp
  qed
  have unmatched: "r \<notin> ar" if r: "r < n" and far: "\<forall>c < m. \<not> near r c" for r
  proof -
    obtain i where i: "i < n" "fst (ps ! i) = r" using rowidx [OF r] by blast
    have pin: "ps ! i \<in> set ps" using i lps by simp
    have "snd (ps ! i) < m" using pair [OF pin] by simp
    then have "\<not> near (fst (ps ! i)) (snd (ps ! i))" using far i by simp
    then show ?thesis using A [OF i(1)] i by simp
  qed
  have allcols: "c \<in> ac" if c: "c < m" for c
  proof -
    obtain r where r: "r < n" "near r c" using one' [OF c] by blast
    have "r \<in> ar" "(r, c) \<in> set ps" using matched [OF r(1) c r(2)] by simp_all
    then have "(r, c) \<in> {p \<in> set ps. fst p \<in> ar}" by simp
    then have "snd (r, c) \<in> snd ` {p \<in> set ps. fst p \<in> ar}" by (rule imageI)
    then show ?thesis using gf(7) by simp
  qed
  have nocols: "filter (\<lambda>c. c \<notin> ac) [0..<length rects] = []"
    using allcols by (simp add: m_def filter_empty_conv)
  obtain t' where u: "update rects t = Inr t'"
    and ass: "\<forall>p \<in> set ps. fst p \<in> ar \<longrightarrow>
            map_of (objects t') (fst (objects t ! fst p)) = Some (rects ! snd p)
            \<and> map_of (disappeared t') (fst (objects t ! fst p)) = Some 0"
    and una: "\<forall>r < n. r \<notin> ar \<longrightarrow>
            (\<exists>k. map_of (disappeared t) (fst (objects t ! r)) = Some k
              \<and> (if max_disappeared t < k + 1
                  then map_of (objects t') (fst (objects t ! r)) = None
                       \<and> map_of (disappeared t') (fst (objects t ! r)) = None
                  else map_of (objects t') (fst (objects t ! r)) = Some (snd (objects t ! r))
                       \<and> map_of (disappeared t') (fst (objects t ! r)) = Some (k + 1)))"
    and nid: "next_object_id t' = next_object_id t + int (length (filter (\<lambda>c. c \<notin> ac) [0..<length rects]))"
    using update_outcome [OF inv ne obj g, folded D_def, folded ps_def, folded n_def] by blast
  have nid': "next_object_id t' = next_object_id t" using nid nocols by simp
  have keys: "set (map fst (objects t')) \<subseteq> set (map fst (objects t))"
    using update_keys_old [OF inv u nid'] .
  have c1: "\<forall>r < length (objects t). \<forall>c < length rects.
           euclid (centroid (snd (objects t ! r))) (centroid (rects ! c)) \<le> max_distance t \<longrightarrow>
           map_of (objects t') (fst (objects t ! r)) = Some (rects ! c)
           \<and> map_of (disappeared t') (fst (objects t ! r)) = Some 0"
  proof (intro allI impI)
    fix r c assume r: "r < length (objects t)" and c: "c < length rects"
      and w: "euclid (centroid (snd (objects t ! r))) (centroid (rects ! c)) \<le> max_distance t"
    have r': "r < n" and c': "c < m" using r c by (simp_all add: n_def m_def)
    have "near r c" using w Dnth [OF r' c'] by (simp add: near_def)
    then have "r \<in> ar" "(r, c) \<in> set ps" using matched [OF r' c'] by simp_all
    then show "map_of (objects t') (fst (objects t ! r)) = Some (rects ! c)
           \<and> map_of (disappeared t') (fst (objects t ! r)) = Some 0"
      using ass by force
  qed
  have c2: "\<forall>r < length (objects t).
           (\<forall>c < length rects.
              max_distance t < euclid (centroid (snd (objects t ! r))) (centroid (rects ! c))) \<longrightarrow>
           (\<exists>k. map_of (disappeared t) (fst (objects t ! r)) = Some k
              \<and> (if max_disappeared t < k + 1
                  then map_of (objects t') (fst (objects t ! r)) = None
                  else map_of (objects t') (fst (objects t ! r)) = Some (snd (objects t ! r))
                       \<and> map_of (disappeared t') (fst (objects t ! r)) = Some (k + 1)))"
  proof (intro allI impI)
    fix r assume r: "r < length (objects t)"
      and far: "\<forall>c < length rects.
              max_distance t < euclid (centroid (snd (objects t ! r))) (centroid (rects ! c))"
    have r': "r < n" using r by (simp add: n_def)
    have "\<forall>c < m. \<not> near r c"
      using far Dnth [OF r'] unfolding near_def m_def by auto
    then have "r \<notin> ar" using unmatched [OF r'] by simp
    then obtain k where k: "map_of (disappeared t) (fst (objects t ! r)) = Some k"
      "if max_disappeared t < k + 1
                  then map_of (objects t') (fst (objects t ! r)) = None
                       \<and> map_of (disappeared t') (fst (objects t ! r)) = None
                  else map_of (objects t') (fst (objects t ! r)) = Some (snd (objects t ! r))
                       \<and> map_of (disappeared t') (fst (objects t ! r)) = Some (k + 1)"
      using una r' by blast
    show "\<exists>k. map_of (disappeared t) (fst (objects t ! r)) = Some k
              \<and> (if max_disappeared t < k + 1
                  then map_of (objects t') (fst (objects t ! r)) = None
                  else map_of (objects t') (fst (objects t ! r)) = Some (snd (objects t ! r))
                       \<and> map_of (disappeared t') (fst (objects t ! r)) = Some (k + 1))"
      using k by (intro exI [of _ k]) (simp split: if_splits)
  qed
  have c3: "set (map fst (objects t')) = set (map fst (objects t))" if eq: "length rects = length (objects t)"
  proof -
    have "\<forall>c \<in> {0..<m}. \<exists>r. r < n \<and> near r c"
    proof
      fix c assume "c \<in> {0..<m}"
      then have "c < m" by simp
      then show "\<exists>r. r < n \<and> near r c" using one' [of c] by blast
    qed
    then have "\<exists>f. \<forall>c \<in> {0..<m}. f c < n \<and> near (f c) c"
      by (rule bchoice)
    then obtain f where f: "\<forall>c \<in> {0..<m}. f c < n \<and> near (f c) c"
      by blast
    have fp: "f c < n \<and> near (f c) c" if "c < m" for c
      using f that by simp
    have "inj_on f {0..<m}"
    proof (rule inj_onI)
      fix c c' assume "c \<in> {0..<m}" "c' \<in> {0..<m}" "f c = f c'"
      then show "c = c'" using fp [of c] fp [of c'] inj' [of "f c" c c'] by simp
    qed
    then have "card (f ` {0..<m}) = m" by (simp add: card_image)
    moreover have "f ` {0..<m} \<subseteq> {0..<n}" using fp by auto
    moreover have "m = n" using eq by (simp add: m_def n_def)
    ultimately have "f ` {0..<m} = {0..<n}"
      by (simp add: card_subset_eq)
    then have all: "\<exists>c < m. near r c" if "r < n" for r
    proof -
      have "r \<in> f ` {0..<m}" using that \<open>f ` {0..<m} = {0..<n}\<close> by simp
      then obtain c where "c < m" "r = f c" by auto
      then show ?thesis using fp by blast
    qed
    have "set (map fst (objects t)) \<subseteq> set (map fst (objects t'))"
    proof
      fix k assume "k \<in> set (map fst (objects t))"
      then obtain r where "r < length (map fst (objects t))" "map fst (objects t) ! r = k"
        unfolding in_set_conv_nth by blast
      then have r: "r < n" "k = fst (objects t ! r)"
        by (simp_all add: n_def)
      obtain c where c: "c < m" "near r c" using all [OF r(1)] by blast
      have "r \<in> ar" "(r, c) \<in> set ps" using matched [OF r(1) c] by simp_all
      then have "map_of (objects t') k = Some (rects ! c)"
        using ass r(2) by force
      then show "k \<in> set (map fst (objects t'))"
        unfolding key_iff_map_of by simp
    qed
    then show ?thesis using keys by blast
  qed
  show ?thesis
    using u nid' keys c1 c2 c3 by blast
qed

theorem small_motion_keeps_ids_witness:
  "update [(105, 103, 50, 50)] tw4
     = Inr \<lparr>next_object_id = 1, objects = [(0, (105, 103, 50, 50))], disappeared = [(0, 0)],
            max_disappeared = 15, max_distance = 80\<rparr>
   \<and> (\<exists>t'. update [(105, 103, 50, 50)] tw4 = Inr t'
         \<and> next_object_id t' = next_object_id tw4
         \<and> set (map fst (objects t')) = set (map fst (objects tw4)))"
proof -
  have i: "tracker_inv tw4"
    by (simp add: tw4_def tracker_inv_def)
  have ne: "[(105, 103, 50, 50)] \<noteq> ([] :: rect list)"
    by simp
  have d: "euclid (centroid (100, 100, 50, 50)) (centroid (105, 103, 50, 50)) \<le> 80"
    by (simp add: euclid_within_iff centroid_int)
  have one: "\<forall>c < length [(105, 103, 50, 50) :: rect]. \<exists>!r. r < length (objects tw4)
               \<and> euclid (centroid (snd (objects tw4 ! r))) (centroid ([(105, 103, 50, 50)] ! c))
                    \<le> max_distance tw4"
    using d by (auto simp: tw4_def)
  have inj: "\<forall>r < length (objects tw4). \<forall>c < length [(105, 103, 50, 50) :: rect].
               \<forall>c' < length [(105, 103, 50, 50) :: rect].
               euclid (centroid (snd (objects tw4 ! r))) (centroid ([(105, 103, 50, 50)] ! c))
                  \<le> max_distance tw4
               \<and> euclid (centroid (snd (objects tw4 ! r))) (centroid ([(105, 103, 50, 50)] ! c'))
                  \<le> max_distance tw4
               \<longrightarrow> c = c'"
    by simp
  have u: "update [(105, 103, 50, 50)] tw4
     = Inr \<lparr>next_object_id = 1, objects = [(0, (105, 103, 50, 50))], disappeared = [(0, 0)],
            max_disappeared = 15, max_distance = 80\<rparr>"
    by (simp add: tw4_def run_update centroid_int euclid_gt_iff)
  show ?thesis
    using small_motion_keeps_ids [OF i ne one inj] u by (simp add: tw4_def)
qed

lemma tw3_reachable:
  "last (states ([(100, 100, 50, 50), (300, 100, 50, 50)] # replicate 15 [(100, 100, 50, 50)])
          (CentroidTracker 15 80)) = tw3"
  by (simp add: tw3_def CentroidTracker_def run_update centroid_int euclid_gt_iff euclid_within_iff
      euclid_le_iff euclid_less_iff eval_nat_numeral)

text \<open>
  C2 as stated fails twice over. The tracker \<open>tw3\<close> is what a default tracker is
  after two registrations and fifteen ticks that saw the first object only. One
  detection next to object 0 of \<open>tw3\<close>, farther
  than \<open>max_distance\<close> from object 1 whose count stands at \<open>max_disappeared\<close>: object
  1 is deregistered and the ids are not those before the call. And with two objects and
  two detections, each detection within \<open>max_distance\<close> of both centroids and nearest
  to a centroid of its own, both rows pick the second detection: the first detection
  is registered under a new id.
\<close>

theorem small_motion_counterexample:
  "last (states ([(100, 100, 50, 50), (300, 100, 50, 50)] # replicate 15 [(100, 100, 50, 50)])
          (CentroidTracker 15 80)) = tw3
   \<and> euclid (centroid (snd (objects tw3 ! 0))) (centroid (105, 103, 50, 50)) \<le> max_distance tw3
   \<and> max_distance tw3 < euclid (centroid (snd (objects tw3 ! 1))) (centroid (105, 103, 50, 50))
   \<and> map fst (objects tw3) = [0, 1]
   \<and> update [(105, 103, 50, 50)] tw3
       = Inr \<lparr>next_object_id = 2, objects = [(0, (105, 103, 50, 50))], disappeared = [(0, 0)],
              max_disappeared = 15, max_distance = 80\<rparr>
   \<and> euclid (centroid (snd (objects tw2 ! 0))) (centroid (-36, -25, 50, 50))
       < euclid (centroid (snd (objects tw2 ! 1))) (centroid (-36, -25, 50, 50))
   \<and> euclid (centroid (snd (objects tw2 ! 1))) (centroid (-15, -25, 50, 50))
       < euclid (centroid (snd (objects tw2 ! 0))) (centroid (-15, -25, 50, 50))
   \<and> euclid (centroid (snd (objects tw2 ! 1))) (centroid (-36, -25, 50, 50)) \<le> max_distance tw2
   \<and> euclid (centroid (snd (objects tw2 ! 0))) (centroid (-15, -25, 50, 50)) \<le> max_distance tw2
   \<and> update [(-36, -25, 50, 50), (-15, -25, 50, 50)] tw2
       = Inr \<lparr>next_object_id = 3,
              objects = [(0, (-25, -25, 50, 50)), (1, (-15, -25, 50, 50)), (2, (-36, -25, 50, 50))],
              disappeared = [(0, 1), (1, 0), (2, 0)], max_disappeared = 15, max_distance = 80\<rparr>"
proof -
  have "euclid (centroid (snd (objects tw3 ! 0))) (centroid (105, 103, 50, 50)) \<le> max_distance tw3
   \<and> max_distance tw3 < euclid (centroid (snd (objects tw3 ! 1))) (centroid (105, 103, 50, 50))
   \<and> map fst (objects tw3) = [0, 1]
   \<and> update [(105, 103, 50, 50)] tw3
       = Inr \<lparr>next_object_id = 2, objects = [(0, (105, 103, 50, 50))], disappeared = [(0, 0)],
              max_disappeared = 15, max_distance = 80\<rparr>
   \<and> euclid (centroid (snd (objects tw2 ! 0))) (centroid (-36, -25, 50, 50))
       < euclid (centroid (snd (objects tw2 ! 1))) (centroid (-36, -25, 50, 50))
   \<and> euclid (centroid (snd (objects tw2 ! 1))) (centroid (-15, -25, 50, 50))
       < euclid (centroid (snd (objects tw2 ! 0))) (centroid (-15, -25, 50, 50))
   \<and> euclid (centroid (snd (objects tw2 ! 1))) (centroid (-36, -25, 50, 50)) \<le> max_distance tw2
   \<and> euclid (centroid (snd (objects tw2 ! 0))) (centroid (-15, -25, 50, 50)) \<le> max_distance tw2
   \<and> update [(-36, -25, 50, 50), (-15, -25, 50, 50)] tw2
       = Inr \<lparr>next_object_id = 3,
              objects = [(0, (-25, -25, 50, 50)), (1, (-15, -25, 50, 50)), (2, (-36, -25, 50, 50))],
              disappeared = [(0, 1), (1, 0), (2, 0)], max_disappeared = 15, max_distance = 80\<rparr>"
    by (simp add: tw3_def tw2_def run_update centroid_int euclid_gt_iff euclid_within_iff
        euclid_le_iff euclid_less_iff)
  then show ?thesis
    by (rule conjI [OF tw3_reachable])
qed

subsection \<open>The loop over the tracked objects\<close>

lemma per_object_loop:
  assumes "emotion_every vs \<noteq> 0"
  shows "for_each (per_object fr) tracked_items (vs, rs) =
     Inr (vs\<lparr>logs := logs vs @
            map (\<lambda>(person_id, x, y, w, h).
                   (person_id, predict (emotion vs) fr (max x 0, max y 0, max w 1, max h 1)))
              (filter (\<lambda>(person_id, x, y, w, h).
                   frame_count vs mod emotion_every vs = 0
                   \<and> 0 < roi_size fr (max x 0, max y 0, max w 1, max h 1)) tracked_items)\<rparr>,
          rs @ map (\<lambda>(person_id, x, y, w, h).
                   if frame_count vs mod emotion_every vs = 0
                      \<and> 0 < roi_size fr (max x 0, max y 0, max w 1, max h 1)
                   then (person_id, (max x 0, max y 0, max w 1, max h 1),
                         predict (emotion vs) fr (max x 0, max y 0, max w 1, max h 1))
                   else (person_id, (max x 0, max y 0, max w 1, max h 1), ''neutral'', 0))
              tracked_items)"
  using assms
proof (induction tracked_items arbitrary: vs rs)
  case Nil
  show ?case by simp
next
  case (Cons it its)
  obtain person_id x y w h where it: "it = (person_id, x, y, w, h)"
    by (cases it) auto
  define roi where "roi = (max x 0, max y 0, max w 1, max h 1)"
  show ?case
  proof (cases "frame_count vs mod emotion_every vs = 0 \<and> 0 < roi_size fr roi")
    case True
    obtain em conf where p: "predict (emotion vs) fr roi = (em, conf)"
      by (cases "predict (emotion vs) fr roi")
    define vs1 where "vs1 = vs\<lparr>logs := logs vs @ [(person_id, em, conf)]\<rparr>"
    have step: "per_object fr (person_id, x, y, w, h) (vs, rs) = Inr (vs1, rs @ [(person_id, roi, em, conf)])"
      using True Cons.prems p by (simp add: per_object_def it roi_def [symmetric] vs1_def Let_def)
    have ev1: "emotion_every vs1 \<noteq> 0" using Cons.prems by (simp add: vs1_def)
    have f1: "emotion vs1 = emotion vs" "frame_count vs1 = frame_count vs"
      "emotion_every vs1 = emotion_every vs"
      by (simp_all add: vs1_def)
    show ?thesis
      using True p
      by (simp add: step Cons.IH [OF ev1, unfolded f1] it roi_def [symmetric]) (simp add: vs1_def)
  next
    case False
    have step: "per_object fr (person_id, x, y, w, h) (vs, rs) = Inr (vs, rs @ [(person_id, roi, ''neutral'', 0)])"
      using False Cons.prems by (auto simp: per_object_def it roi_def [symmetric] Let_def)
    show ?thesis
      using False by (auto simp: step Cons.IH [OF Cons.prems] it roi_def [symmetric])
  qed
qed

subsection \<open>One tick\<close>

lemma process_frame_closed:
  "\<not> is_open vs \<Longrightarrow> process_frame vs = (vs, Inl (RuntimeError ''Cannot open camera''))"
  by (simp add: process_frame_def)

lemma process_frame_no_frame:
  assumes "is_open vs" and "read (cap vs) = ((ret, frame), cap')" and "\<not> ret \<or> frame = None"
  shows "process_frame vs = (vs\<lparr>cap := cap'\<rparr>, Inl (RuntimeError ''Failed to read frame from camera''))"
  using assms by (auto simp: process_frame_def Let_def split: option.splits)

lemma process_frame_ok:
  assumes "is_open vs" and "read (cap vs) = ((True, Some fr), cap')"
    and "tracker_inv (tracker vs)" and "emotion_every vs \<noteq> 0"
  shows "\<exists>tracked. update (map (\<lambda>det. bbox_from_detection det fr) (detector vs fr)) (tracker vs)
             = Inr tracked
     \<and> tracker_inv tracked
     \<and> process_frame vs =
        (vs\<lparr>cap := cap', tracker := tracked, frame_count := frame_count vs + 1,
            logs := logs vs @
              map (\<lambda>(person_id, x, y, w, h).
                     (person_id, predict (emotion vs) fr (max x 0, max y 0, max w 1, max h 1)))
                (filter (\<lambda>(person_id, x, y, w, h).
                     (frame_count vs + 1) mod emotion_every vs = 0
                     \<and> 0 < roi_size fr (max x 0, max y 0, max w 1, max h 1)) (objects tracked)),
            latest_data :=
              map (\<lambda>(person_id, x, y, w, h).
                     if (frame_count vs + 1) mod emotion_every vs = 0
                        \<and> 0 < roi_size fr (max x 0, max y 0, max w 1, max h 1)
                     then (person_id, (max x 0, max y 0, max w 1, max h 1),
                           predict (emotion vs) fr (max x 0, max y 0, max w 1, max h 1))
                     else (person_id, (max x 0, max y 0, max w 1, max h 1), ''neutral'', 0))
                (objects tracked)\<rparr>,
         Inr (map (\<lambda>(person_id, x, y, w, h).
                     if (frame_count vs + 1) mod emotion_every vs = 0
                        \<and> 0 < roi_size fr (max x 0, max y 0, max w 1, max h 1)
                     then (person_id, (max x 0, max y 0, max w 1, max h 1),
                           predict (emotion vs) fr (max x 0, max y 0, max w 1, max h 1))
                     else (person_id, (max x 0, max y 0, max w 1, max h 1), ''neutral'', 0))
                (objects tracked)))"
proof -
  define boxes where "boxes = map (\<lambda>det. bbox_from_detection det fr) (detector vs fr)"
  obtain tracked where u: "update boxes (tracker vs) = Inr tracked" and i: "tracker_inv tracked"
    using update_step [OF assms(3), of boxes] by blast
  define vs2 where "vs2 = vs\<lparr>cap := cap', tracker := tracked, frame_count := frame_count vs + 1\<rparr>"
  have ev2: "emotion_every vs2 \<noteq> 0" using assms(4) by (simp add: vs2_def)
  have f2: "emotion vs2 = emotion vs" "frame_count vs2 = frame_count vs + 1"
    "emotion_every vs2 = emotion_every vs" "logs vs2 = logs vs"
    by (simp_all add: vs2_def)
  note loop = per_object_loop [OF ev2, of fr "objects tracked" "[]", unfolded f2]
  have "process_frame vs =
     (case for_each (per_object fr) (objects tracked) (vs2, []) of
        Inl e \<Rightarrow> (vs2, Inl e)
      | Inr (vs3, results) \<Rightarrow> (vs3\<lparr>latest_data := results\<rparr>, Inr results))"
    using assms(1,2) u unfolding vs2_def boxes_def by (simp add: process_frame_def Let_def)
  then have "process_frame vs = (case Inr (vs2\<lparr>logs := logs vs @
              map (\<lambda>(person_id, x, y, w, h).
                     (person_id, predict (emotion vs) fr (max x 0, max y 0, max w 1, max h 1)))
                (filter (\<lambda>(person_id, x, y, w, h).
                     (frame_count vs + 1) mod emotion_every vs = 0
                     \<and> 0 < roi_size fr (max x 0, max y 0, max w 1, max h 1)) (objects tracked))\<rparr>,
              [] @ map (\<lambda>(person_id, x, y, w, h).
                     if (frame_count vs + 1) mod emotion_every vs = 0
                        \<and> 0 < roi_size fr (max x 0, max y 0, max w 1, max h 1)
                     then (person_id, (max x 0, max y 0, max w 1, max h 1),
                           predict (emotion vs) fr (max x 0, max y 0, max w 1, max h 1))
                     else (person_id, (max x 0, max y 0, max w 1, max h 1), ''neutral'', 0))
                (objects tracked)) of
        Inl e \<Rightarrow> (vs2, Inl e)
      | Inr (vs3, results) \<Rightarrow> (vs3\<lparr>latest_data := results\<rparr>, Inr results))"
    unfolding loop .
  then show ?thesis
    using u i unfolding boxes_def by (simp add: vs2_def)
qed

subsection \<open>Running the pipeline on samples\<close>

lemma ticks_numeral: "ticks (numeral k) vs = ticks (pred_numeral k) (fst (process_frame vs))"
  by (simp add: numeral_eq_Suc)

lemma replicate_numeral: "replicate (numeral k) x = x # replicate (pred_numeral k) x"
  by (simp add: numeral_eq_Suc)

lemmas run_vision =
  process_frame_def per_object_def is_open_def read_def bbox_from_detection_def roi_size_def
  predict_def py_int_def VisionSystem_def CentroidTracker_def camera_on_def frame0_def happy_def
  ticks_numeral replicate_numeral

subsection \<open>The sampling period\<close>

text \<open>
  C7 (amended). With \<open>emotion_every = 5\<close> a tick whose camera is open and gives a
  frame returns one result per tracked object and raises the counter by one. When the
  new count is not a multiple of 5 every result is the sentinel and the log is
  unchanged. When it is, the sampler is called for each object whose clamped box cuts a
  non-empty region out of the frame: its result carries the label and confidence of
  \<open>predict\<close> and one log line is appended for it, in the order of the objects; an
  object whose region is empty keeps the sentinel and is not logged.
\<close>

theorem sampling_every_fifth_tick:
  assumes "emotion_every vs = 5" and "is_open vs" and "read (cap vs) = ((True, Some fr), cap')"
    and "tracker_inv (tracker vs)"
  shows "\<exists>vs' tracked results. process_frame vs = (vs', Inr results)
     \<and> update (map (\<lambda>det. bbox_from_detection det fr) (detector vs fr)) (tracker vs) = Inr tracked
     \<and> tracker vs' = tracked \<and> frame_count vs' = frame_count vs + 1 \<and> latest_data vs' = results
     \<and> ((frame_count vs + 1) mod 5 \<noteq> 0 \<longrightarrow>
           logs vs' = logs vs
           \<and> results = map (\<lambda>(person_id, x, y, w, h).
                             (person_id, (max x 0, max y 0, max w 1, max h 1), ''neutral'', 0))
                         (objects tracked))
     \<and> ((frame_count vs + 1) mod 5 = 0 \<longrightarrow>
           logs vs' = logs vs @
              map (\<lambda>(person_id, x, y, w, h).
                     (person_id, predict (emotion vs) fr (max x 0, max y 0, max w 1, max h 1)))
                (filter (\<lambda>(person_id, x, y, w, h).
                     0 < roi_size fr (max x 0, max y 0, max w 1, max h 1)) (objects tracked))
           \<and> results = map (\<lambda>(person_id, x, y, w, h).
                     if 0 < roi_size fr (max x 0, max y 0, max w 1, max h 1)
                     then (person_id, (max x 0, max y 0, max w 1, max h 1),
                           predict (emotion vs) fr (max x 0, max y 0, max w 1, max h 1))
                     else (person_id, (max x 0, max y 0, max w 1, max h 1), ''neutral'', 0))
                (objects tracked))"
proof -
  have ev: "emotion_every vs \<noteq> 0" using assms(1) by simp
  obtain tracked where u: "update (map (\<lambda>det. bbox_from_detection det fr) (detector vs fr)) (tracker vs)
             = Inr tracked"
    and p: "process_frame vs =
        (vs\<lparr>cap := cap', tracker := tracked, frame_count := frame_count vs + 1,
            logs := logs vs @
              map (\<lambda>(person_id, x, y, w, h).
                     (person_id, predict (emotion vs) fr (max x 0, max y 0, max w 1, max h 1)))
                (filter (\<lambda>(person_id, x, y, w, h).
                     (frame_count vs + 1) mod emotion_every vs = 0
                     \<and> 0 < roi_size fr (max x 0, max y 0, max w 1, max h 1)) (objects tracked)),
            latest_data :=
              map (\<lambda>(person_id, x, y, w, h).
                     if (frame_count vs + 1) mod emotion_every vs = 0
                        \<and> 0 < roi_size fr (max x 0, max y 0, max w 1, max h 1)
                     then (person_id, (max x 0, max y 0, max w 1, max h 1),
                           predict (emotion vs) fr (max x 0, max y 0, max w 1, max h 1))
                     else (person_id, (max x 0, max y 0, max w 1, max h 1), ''neutral'', 0))
                (objects tracked)\<rparr>,
         Inr (map (\<lambda>(person_id, x, y, w, h).
                     if (frame_count vs + 1) mod emotion_every vs = 0
                        \<and> 0 < roi_size fr (max x 0, max y 0, max w 1, max h 1)
                     then (person_id, (max x 0, max y 0, max w 1, max h 1),
                           predict (emotion vs) fr (max x 0, max y 0, max w 1, max h 1))
                     else (person_id, (max x 0, max y 0, max w 1, max h 1), ''neutral'', 0))
                (objects tracked)))"
    using process_frame_ok [OF assms(2,3,4) ev] by blast
  show ?thesis
  proof (cases "(frame_count vs + 1) mod 5 = 0")
    case True
    show ?thesis
      using u True unfolding p [unfolded assms(1)] by simp
  next
    case False
    show ?thesis
      using u False unfolding p [unfolded assms(1)] by simp
  qed
qed

theorem sampling_every_fifth_tick_witness:
  "process_frame (ticks 4 (VisionSystem 0 5 (camera_on 5) (\<lambda>fr. [(1 / 4, 1 / 4, 1 / 4, 1 / 4)]) (Some happy)))
   = (\<lparr>camera_index = 0, emotion_every = 5, cap = \<lparr>isOpened = True, frames = []\<rparr>,
        detector = \<lambda>fr. [(1 / 4, 1 / 4, 1 / 4, 1 / 4)],
        tracker = \<lparr>next_object_id = 1, objects = [(0, 160, 120, 160, 120)],
                    disappeared = [(0, 0)], max_disappeared = 15, max_distance = 80\<rparr>,
        emotion = Some happy, latest_data = [(0, (160, 120, 160, 120), ''happy'', 9 / 10)],
        frame_count = 5, logs = [(0, ''happy'', 9 / 10)]\<rparr>,
      Inr [(0, (160, 120, 160, 120), ''happy'', 9 / 10)])"
proof -
  define vs where "vs = ticks 4 (VisionSystem 0 5 (camera_on 5) (\<lambda>fr. [(1 / 4, 1 / 4, 1 / 4, 1 / 4)]) (Some happy))"
  have vs: "vs = \<lparr>camera_index = 0, emotion_every = 5,
        cap = \<lparr>isOpened = True, frames = [(True, Some frame0)]\<rparr>,
        detector = \<lambda>fr. [(1 / 4, 1 / 4, 1 / 4, 1 / 4)],
        tracker = \<lparr>next_object_id = 1, objects = [(0, 160, 120, 160, 120)],
                    disappeared = [(0, 0)], max_disappeared = 15, max_distance = 80\<rparr>,
        emotion = Some happy, latest_data = [(0, (160, 120, 160, 120), ''neutral'', 0)],
        frame_count = 4, logs = []\<rparr>"
    unfolding vs_def
    by (simp add: run_vision run_update centroid_int euclid_gt_iff euclid_le_iff)
  have h1: "emotion_every vs = 5" and h2: "is_open vs"
    and h3: "read (cap vs) = ((True, Some frame0), \<lparr>isOpened = True, frames = []\<rparr>)"
    and h4: "tracker_inv (tracker vs)"
    by (simp_all add: vs is_open_def read_def tracker_inv_def)
  obtain vs' tracked results where r: "process_frame vs = (vs', Inr results)"
    and u: "update (map (\<lambda>det. bbox_from_detection det frame0) (detector vs frame0)) (tracker vs) = Inr tracked"
    and s: "(frame_count vs + 1) mod 5 = 0 \<longrightarrow>
           logs vs' = logs vs @
              map (\<lambda>(person_id, x, y, w, h).
                     (person_id, predict (emotion vs) frame0 (max x 0, max y 0, max w 1, max h 1)))
                (filter (\<lambda>(person_id, x, y, w, h).
                     0 < roi_size frame0 (max x 0, max y 0, max w 1, max h 1)) (objects tracked))"
    using sampling_every_fifth_tick [OF h1 h2 h3 h4] by blast
  have "process_frame vs
   = (\<lparr>camera_index = 0, emotion_every = 5, cap = \<lparr>isOpened = True, frames = []\<rparr>,
        detector = \<lambda>fr. [(1 / 4, 1 / 4, 1 / 4, 1 / 4)],
        tracker = \<lparr>next_object_id = 1, objects = [(0, 160, 120, 160, 120)],
                    disappeared = [(0, 0)], max_disappeared = 15, max_distance = 80\<rparr>,
        emotion = Some happy, latest_data = [(0, (160, 120, 160, 120), ''happy'', 9 / 10)],
        frame_count = 5, logs = [(0, ''happy'', 9 / 10)]\<rparr>,
      Inr [(0, (160, 120, 160, 120), ''happy'', 9 / 10)])"
    using r unfolding vs
    by (simp add: run_vision run_update centroid_int euclid_gt_iff euclid_le_iff)
  then show ?thesis unfolding vs_def .
qed

text \<open>
  C7 as stated fails on a sampling tick for an object whose box starts outside the
  frame. A detector that places a face at \<open>xmin = 1.5\<close> of a 640 pixel wide frame
  gives the box \<open>(960, 0, 64, 48)\<close>; on the fifth tick the crop is empty, the sampler
  is not called (it would have answered \<open>happy\<close>) and no log line is written.
\<close>

theorem sampling_counterexample:
  "frame_count (ticks 4 (VisionSystem 0 5 (camera_on 5) (\<lambda>fr. [(3 / 2, 0, 1 / 10, 1 / 10)]) (Some happy))) = 4
   \<and> process_frame (ticks 4 (VisionSystem 0 5 (camera_on 5) (\<lambda>fr. [(3 / 2, 0, 1 / 10, 1 / 10)]) (Some happy)))
   = (\<lparr>camera_index = 0, emotion_every = 5, cap = \<lparr>isOpened = True, frames = []\<rparr>,
        detector = \<lambda>fr. [(3 / 2, 0, 1 / 10, 1 / 10)],
        tracker = \<lparr>next_object_id = 1, objects = [(0, 960, 0, 64, 48)],
                    disappeared = [(0, 0)], max_disappeared = 15, max_distance = 80\<rparr>,
        emotion = Some happy, latest_data = [(0, (960, 0, 64, 48), ''neutral'', 0)],
        frame_count = 5, logs = []\<rparr>,
      Inr [(0, (960, 0, 64, 48), ''neutral'', 0)])
   \<and> predict (Some happy) frame0 (960, 0, 64, 48) = (''happy'', 9 / 10)"
  by (simp add: run_vision run_update centroid_int euclid_gt_iff euclid_le_iff)

subsection \<open>Any sort numpy may use\<close>

lemma argsort_spec_length:
  assumes "argsort_spec srt"
  shows "length (srt ks) = length ks"
proof -
  have "distinct (srt ks)" and "set (srt ks) = {0..<length ks}"
    using assms by (simp_all add: argsort_spec_def)
  then have "length (srt ks) = card {0..<length ks}"
    by (metis distinct_card)
  then show ?thesis by simp
qed

lemma argsort_spec_argsort: "argsort_spec argsort"
  unfolding argsort_spec_def argsort_def by (simp add: sorted_sort_key)

lemma argsort_spec_ties_last: "argsort_spec argsort_ties_last"
proof -
  have "sorted (map (\<lambda>i. ks ! i) (rev (sort_key (\<lambda>i. - (ks ! i)) [0..<length ks])))" for ks :: "real list"
  proof -
    have "sorted (map (\<lambda>i. - (ks ! i)) (sort_key (\<lambda>i. - (ks ! i)) [0..<length ks]))"
      by (rule sorted_sort_key)
    then have "sorted_wrt (\<lambda>a b. ks ! b \<le> ks ! a) (sort_key (\<lambda>i. - (ks ! i)) [0..<length ks])"
      by (simp add: sorted_wrt_map)
    then have "sorted_wrt (\<lambda>a b. ks ! a \<le> ks ! b) (rev (sort_key (\<lambda>i. - (ks ! i)) [0..<length ks]))"
      by (simp add: sorted_wrt_rev)
    then show ?thesis
      by (simp add: sorted_wrt_map)
  qed
  then show ?thesis
    unfolding argsort_spec_def argsort_ties_last_def by simp
qed

lemma matching_order_is_by: "matching_order D = matching_order_by argsort D"
  by (simp add: matching_order_def matching_order_by_def)

lemma greedy_pass_is_by: "greedy_pass rects t = greedy_pass_by argsort rects t"
  by (simp add: greedy_pass_def greedy_pass_by_def matching_order_is_by)

lemma update_is_by: "update rects t = update_by argsort rects t"
  by (simp add: update_def update_by_def greedy_pass_is_by)

lemma rows_matching_order_by: "map fst (matching_order_by srt D) = srt (map min_list D)"
  by (simp add: matching_order_by_def Let_def)

lemma length_matching_order_by:
  "argsort_spec srt \<Longrightarrow> length (matching_order_by srt D) = length D"
  by (simp add: matching_order_by_def Let_def argsort_spec_length)

lemma cols_matching_order_by:
  assumes sp: "argsort_spec srt" and p: "p \<in> set (matching_order_by srt D)"
  shows "fst p < length D \<and> snd p = argmin (D ! fst p)"
proof -
  obtain i where i: "i < length (matching_order_by srt D)" and pi: "matching_order_by srt D ! i = p"
    using p by (meson in_set_conv_nth)
  have il: "i < length (srt (map min_list D))"
    using i sp by (simp add: length_matching_order_by argsort_spec_length)
  then have "srt (map min_list D) ! i \<in> set (srt (map min_list D))"
    by (rule nth_mem)
  then have r: "srt (map min_list D) ! i < length D"
    using sp by (simp add: argsort_spec_def)
  have "p = (srt (map min_list D) ! i, map argmin D ! (srt (map min_list D) ! i))"
    using pi il by (simp add: matching_order_by_def Let_def)
  then show ?thesis using r by simp
qed

lemma matching_order_by_row:
  assumes sp: "argsort_spec srt" and r: "r < length D"
  shows "\<exists>i < length D. fst (matching_order_by srt D ! i) = r"
proof -
  have "r \<in> set (srt (map min_list D))"
    using sp r by (simp add: argsort_spec_def)
  then have "r \<in> set (map fst (matching_order_by srt D))"
    by (simp only: rows_matching_order_by)
  then obtain i where "i < length (map fst (matching_order_by srt D))"
    "map fst (matching_order_by srt D) ! i = r"
    by (meson in_set_conv_nth)
  then show ?thesis
    using sp by (auto simp: length_matching_order_by)
qed

lemma matching_order_by_ascending:
  assumes sp: "argsort_spec srt" and ij: "i < j" and j: "j < length D"
  shows "min_list (D ! fst (matching_order_by srt D ! i))
       \<le> min_list (D ! fst (matching_order_by srt D ! j))"
proof -
  define rows where "rows = srt (map min_list D)"
  have l: "length rows = length D"
    using sp by (simp add: rows_def argsort_spec_length)
  have lm: "length (matching_order_by srt D) = length D"
    using sp by (rule length_matching_order_by)
  have "map fst (matching_order_by srt D) ! i = rows ! i"
    and "map fst (matching_order_by srt D) ! j = rows ! j"
    by (simp_all only: rows_matching_order_by rows_def)
  then have ri: "fst (matching_order_by srt D ! i) = rows ! i"
    and rj: "fst (matching_order_by srt D ! j) = rows ! j"
    using ij j lm by simp_all
  have "rows ! i \<in> set rows" "rows ! j \<in> set rows"
    using ij j l by simp_all
  then have bi: "rows ! i < length D" and bj: "rows ! j < length D"
    using sp by (simp_all add: rows_def argsort_spec_def)
  have "sorted (map (\<lambda>i. map min_list D ! i) rows)"
    using sp by (simp add: rows_def argsort_spec_def)
  then have "map (\<lambda>i. map min_list D ! i) rows ! i \<le> map (\<lambda>i. map min_list D ! i) rows ! j"
    by (rule sorted_nth_mono) (use ij j l in simp_all)
  then show ?thesis
    using ij j l bi bj by (simp add: ri rj)
qed

subsection \<open>The greedy assignment\<close>

text \<open>
  C1 (amended). Whatever order numpy's sort gives to equal keys, in the matching branch
  the pairs of the greedy loop hold every row once, in ascending order of the row's
  least distance; the rows themselves stand in the order of registration; the column
  paired with a row is the first at the row's least distance. The loop returns, and a
  row is assigned (its object takes the box of that column with count 0) exactly when
  the distance does not exceed \<open>max_distance\<close> and no row assigned earlier in the
  order holds the column. Which of two rows of equal least distance comes first is left
  to the sort.
\<close>

theorem greedy_assignment_any_sort:
  assumes sp: "argsort_spec srt"
    and inv: "tracker_inv t" and ne: "rects \<noteq> []" and obj: "objects t \<noteq> []"
  shows "let D = distance_matrix rects t; ps = matching_order_by srt D; n = length (objects t) in
     length ps = n \<and> set (map fst ps) = {0..<n} \<and> distinct (map fst ps)
     \<and> (\<forall>j < n. \<forall>i < j. min_list (D ! fst (ps ! i)) \<le> min_list (D ! fst (ps ! j)))
     \<and> (\<forall>r < n. \<forall>r' < r. fst (objects t ! r') < fst (objects t ! r))
     \<and> (\<forall>p \<in> set ps. snd p < length rects \<and> D ! fst p ! snd p = min_list (D ! fst p)
           \<and> (\<forall>c < snd p. min_list (D ! fst p) < D ! fst p ! c))
     \<and> (\<exists>t1 ar ac. greedy_pass_by srt rects t = Inr (t1, ar, ac)
           \<and> (\<forall>i < n. (fst (ps ! i) \<in> ar) =
                  (D ! fst (ps ! i) ! snd (ps ! i) \<le> max_distance t
                   \<and> (\<forall>j < i. fst (ps ! j) \<in> ar \<longrightarrow> snd (ps ! j) \<noteq> snd (ps ! i))))
           \<and> ac = snd ` {p \<in> set ps. fst p \<in> ar}
           \<and> (\<forall>p \<in> set ps. fst p \<in> ar \<longrightarrow>
                  map_of (objects t1) (fst (objects t ! fst p)) = Some (rects ! snd p)
                  \<and> map_of (disappeared t1) (fst (objects t ! fst p)) = Some 0)
           \<and> (\<forall>r < n. r \<notin> ar \<longrightarrow>
                  map_of (objects t1) (fst (objects t ! r)) = Some (snd (objects t ! r))
                  \<and> map_of (disappeared t1) (fst (objects t ! r))
                      = map_of (disappeared t) (fst (objects t ! r))))"
proof -
  define D where "D = distance_matrix rects t"
  define ps where "ps = matching_order_by srt D"
  define n where "n = length (objects t)"
  define ids where "ids = map fst (objects t)"
  have lD: "length D = n" by (simp add: D_def n_def)
  have lps: "length ps = n"
    unfolding ps_def using sp lD by (simp add: length_matching_order_by)
  have rows: "set (map fst ps) = {0..<n}"
    unfolding ps_def rows_matching_order_by using sp lD by (simp add: argsort_spec_def)
  have dist: "distinct (map fst ps)"
    unfolding ps_def rows_matching_order_by using sp by (simp add: argsort_spec_def)
  have ord: "min_list (D ! fst (ps ! i)) \<le> min_list (D ! fst (ps ! j))" if "i < j" "j < n" for i j
    unfolding ps_def using matching_order_by_ascending [OF sp, of i j D] that lD by simp
  have reg: "fst (objects t ! r') < fst (objects t ! r)" if "r' < r" "r < n" for r r'
  proof -
    have "sorted_wrt (<) (map fst (objects t))"
      using inv by (simp add: tracker_inv_def)
    then have "map fst (objects t) ! r' < map fst (objects t) ! r"
      by (rule sorted_wrt_nth_less) (use that in \<open>simp_all add: n_def\<close>)
    then show ?thesis using that by (simp add: n_def)
  qed
  have col: "snd p < length rects \<and> D ! fst p ! snd p = min_list (D ! fst p)
           \<and> (\<forall>c < snd p. min_list (D ! fst p) < D ! fst p ! c)
           \<and> snd p = argmin (D ! fst p) \<and> fst p < n \<and> length (D ! fst p) = length rects"
    if p: "p \<in> set ps" for p
  proof -
    have r: "fst p < length D" and c: "snd p = argmin (D ! fst p)"
      using cols_matching_order_by [OF sp, of p D] p by (simp_all add: ps_def)
    have len: "length (D ! fst p) = length rects"
      using r lD by (simp add: D_def n_def)
    then have "D ! fst p \<noteq> []" using ne by auto
    then show ?thesis
      using argmin_props [of "D ! fst p"] c len r lD by simp
  qed
  have rng: "\<forall>p \<in> set ps. fst p < length D \<and> snd p < length (D ! fst p)
                \<and> fst p < length ids \<and> snd p < length rects"
  proof
    fix p assume p: "p \<in> set ps"
    have "snd p < length rects" "fst p < n" "length (D ! fst p) = length rects"
      using col [OF p] by blast+
    then show "fst p < length D \<and> snd p < length (D ! fst p)
                \<and> fst p < length ids \<and> snd p < length rects"
      using lD by (simp add: ids_def n_def)
  qed
  from greedy_loop [OF inv ids_def rng dist]
  obtain t1 ar ac where
    run: "for_each (assign_step D ids rects) ps (t, {}, {}) = Inr (t1, ar, ac)"
    and sub: "ar \<subseteq> fst ` set ps"
    and acs: "ac = snd ` {p \<in> set ps. fst p \<in> ar}"
    and idx: "\<forall>i < length ps. (fst (ps ! i) \<in> ar) =
            (D ! fst (ps ! i) ! snd (ps ! i) \<le> max_distance t
             \<and> (\<forall>j < i. fst (ps ! j) \<in> ar \<longrightarrow> snd (ps ! j) \<noteq> snd (ps ! i)))"
    and got: "\<forall>p \<in> set ps. fst p \<in> ar \<longrightarrow>
            map_of (objects t1) (ids ! fst p) = Some (rects ! snd p)
            \<and> map_of (disappeared t1) (ids ! fst p) = Some 0"
    and rest: "\<forall>k. k \<notin> (\<lambda>r. ids ! r) ` ar \<longrightarrow>
            map_of (objects t1) k = map_of (objects t) k
            \<and> map_of (disappeared t1) k = map_of (disappeared t) k"
    by blast
  have g: "greedy_pass_by srt rects t = Inr (t1, ar, ac)"
    using run by (simp add: greedy_pass_by_def Let_def D_def ids_def ps_def)
  have idr: "ids ! r = fst (objects t ! r)" if "r < n" for r
    using that by (simp add: ids_def n_def)
  have arn: "ar \<subseteq> {0..<n}" using sub rows by simp
  have dids: "distinct ids" using inv by (simp add: ids_def tracker_inv_distinct)
  have got': "\<forall>p \<in> set ps. fst p \<in> ar \<longrightarrow>
                  map_of (objects t1) (fst (objects t ! fst p)) = Some (rects ! snd p)
                  \<and> map_of (disappeared t1) (fst (objects t ! fst p)) = Some 0"
  proof (intro ballI impI)
    fix p assume p: "p \<in> set ps" and a: "fst p \<in> ar"
    have "fst p < n" using col [OF p] by simp
    then show "map_of (objects t1) (fst (objects t ! fst p)) = Some (rects ! snd p)
                  \<and> map_of (disappeared t1) (fst (objects t ! fst p)) = Some 0"
      using got p a idr by force
  qed
  have rest': "\<forall>r < n. r \<notin> ar \<longrightarrow>
                  map_of (objects t1) (fst (objects t ! r)) = Some (snd (objects t ! r))
                  \<and> map_of (disappeared t1) (fst (objects t ! r))
                      = map_of (disappeared t) (fst (objects t ! r))"
  proof (intro allI impI)
    fix r assume r: "r < n" and ra: "r \<notin> ar"
    have "ids ! r \<notin> (\<lambda>r. ids ! r) ` ar"
    proof
      assume "ids ! r \<in> (\<lambda>r. ids ! r) ` ar"
      then obtain r' where r': "r' \<in> ar" "ids ! r' = ids ! r" by auto
      then have "r' < length ids" using arn by (auto simp: ids_def n_def)
      moreover have "r < length ids" using r by (simp add: ids_def n_def)
      ultimately have "r' = r"
        using r'(2) nth_eq_iff_index_eq [OF dids, of r' r] by simp
      then show False using r'(1) ra by simp
    qed
    then have same: "map_of (objects t1) (ids ! r) = map_of (objects t) (ids ! r)"
      "map_of (disappeared t1) (ids ! r) = map_of (disappeared t) (ids ! r)"
      using rest by blast+
    have "(ids ! r, snd (objects t ! r)) \<in> set (objects t)"
      using r by (simp add: ids_def n_def)
    then have "map_of (objects t) (ids ! r) = Some (snd (objects t ! r))"
      using dids unfolding ids_def by simp
    then show "map_of (objects t1) (fst (objects t ! r)) = Some (snd (objects t ! r))
                  \<and> map_of (disappeared t1) (fst (objects t ! r))
                      = map_of (disappeared t) (fst (objects t ! r))"
      using same idr [OF r] by simp
  qed
  have "length ps = n \<and> set (map fst ps) = {0..<n} \<and> distinct (map fst ps)
     \<and> (\<forall>j < n. \<forall>i < j. min_list (D ! fst (ps ! i)) \<le> min_list (D ! fst (ps ! j)))
     \<and> (\<forall>r < n. \<forall>r' < r. fst (objects t ! r') < fst (objects t ! r))
     \<and> (\<forall>p \<in> set ps. snd p < length rects \<and> D ! fst p ! snd p = min_list (D ! fst p)
           \<and> (\<forall>c < snd p. min_list (D ! fst p) < D ! fst p ! c))
     \<and> (\<exists>t1 ar ac. greedy_pass_by srt rects t = Inr (t1, ar, ac)
           \<and> (\<forall>i < n. (fst (ps ! i) \<in> ar) =
                  (D ! fst (ps ! i) ! snd (ps ! i) \<le> max_distance t
                   \<and> (\<forall>j < i. fst (ps ! j) \<in> ar \<longrightarrow> snd (ps ! j) \<noteq> snd (ps ! i))))
           \<and> ac = snd ` {p \<in> set ps. fst p \<in> ar}
           \<and> (\<forall>p \<in> set ps. fst p \<in> ar \<longrightarrow>
                  map_of (objects t1) (fst (objects t ! fst p)) = Some (rects ! snd p)
                  \<and> map_of (disappeared t1) (fst (objects t ! fst p)) = Some 0)
           \<and> (\<forall>r < n. r \<notin> ar \<longrightarrow>
                  map_of (objects t1) (fst (objects t ! r)) = Some (snd (objects t ! r))
                  \<and> map_of (disappeared t1) (fst (objects t ! r))
                      = map_of (disappeared t) (fst (objects t ! r))))"
  proof (intro conjI)
    show "length ps = n" by (rule lps)
    show "set (map fst ps) = {0..<n}" by (rule rows)
    show "distinct (map fst ps)" by (rule dist)
    show "\<forall>j < n. \<forall>i < j. min_list (D ! fst (ps ! i)) \<le> min_list (D ! fst (ps ! j))"
      using ord by blast
    show "\<forall>r < n. \<forall>r' < r. fst (objects t ! r') < fst (objects t ! r)"
      using reg by blast
    show "\<forall>p \<in> set ps. snd p < length rects \<and> D ! fst p ! snd p = min_list (D ! fst p)
           \<and> (\<forall>c < snd p. min_list (D ! fst p) < D ! fst p ! c)"
      using col by blast
    show "\<exists>t1 ar ac. greedy_pass_by srt rects t = Inr (t1, ar, ac)
           \<and> (\<forall>i < n. (fst (ps ! i) \<in> ar) =
                  (D ! fst (ps ! i) ! snd (ps ! i) \<le> max_distance t
                   \<and> (\<forall>j < i. fst (ps ! j) \<in> ar \<longrightarrow> snd (ps ! j) \<noteq> snd (ps ! i))))
           \<and> ac = snd ` {p \<in> set ps. fst p \<in> ar}
           \<and> (\<forall>p \<in> set ps. fst p \<in> ar \<longrightarrow>
                  map_of (objects t1) (fst (objects t ! fst p)) = Some (rects ! snd p)
                  \<and> map_of (disappeared t1) (fst (objects t ! fst p)) = Some 0)
           \<and> (\<forall>r < n. r \<notin> ar \<longrightarrow>
                  map_of (objects t1) (fst (objects t ! r)) = Some (snd (objects t ! r))
                  \<and> map_of (disappeared t1) (fst (objects t ! r))
                      = map_of (disappeared t) (fst (objects t ! r)))"
      using g idx [unfolded lps] acs got' rest' by blast
  qed
  then show ?thesis
    unfolding Let_def D_def [symmetric] ps_def [symmetric] n_def [symmetric] .
qed

lemma euclid_eq_num:
  assumes "0 \<le> m"
  shows "(euclid a b = m) = (of_int ((fst a - fst b)\<^sup>2 + (snd a - snd b)\<^sup>2) = m\<^sup>2)"
proof -
  have "m = sqrt (m\<^sup>2)" using assms by simp
  then have "(euclid a b = m) = (euclid a b = sqrt (m\<^sup>2))" by simp
  also have "\<dots> = (of_int ((fst a - fst b)\<^sup>2 + (snd a - snd b)\<^sup>2) = m\<^sup>2)"
    unfolding euclid_def by (rule real_sqrt_eq_iff)
  finally show ?thesis .
qed

lemmas run_update_by =
  update_by_def greedy_pass_by_def matching_order_by_def argsort_ties_last_def
  distance_matrix_def compute_centroids_def
  pairwise_distances_def assign_step_def disappear_row_def register_col_def
  mark_disappeared_def register_def deregister_def Let_def

theorem greedy_assignment_any_sort_witness:
  "matching_order_by argsort_ties_last (distance_matrix [(-25, -25, 50, 50)] tw9)
     = [(3, 0), (2, 0), (0, 0), (1, 0)]
   \<and> greedy_pass_by argsort_ties_last [(-25, -25, 50, 50)] tw9
     = Inr (\<lparr>next_object_id = 4,
             objects = [(0, (175, -25, 50, 50)), (1, (275, -25, 50, 50)),
                        (2, (-15, -25, 50, 50)), (3, (-25, -25, 50, 50))],
             disappeared = [(0, 0), (1, 0), (2, 0), (3, 0)],
             max_disappeared = 15, max_distance = 80\<rparr>, {3}, {0})
   \<and> length (matching_order_by argsort_ties_last (distance_matrix [(-25, -25, 50, 50)] tw9))
     = length (objects tw9)"
proof -
  have i: "tracker_inv tw9"
    by (simp add: tw9_def tracker_inv_def)
  have ne: "[(-25, -25, 50, 50)] \<noteq> ([] :: rect list)"
    by simp
  have obj: "objects tw9 \<noteq> []"
    by (simp add: tw9_def)
  note ga = greedy_assignment_any_sort [OF argsort_spec_ties_last i ne obj, unfolded Let_def]
  have l: "length (matching_order_by argsort_ties_last (distance_matrix [(-25, -25, 50, 50)] tw9))
     = length (objects tw9)"
    using ga by (rule conjunct1)
  have c: "matching_order_by argsort_ties_last (distance_matrix [(-25, -25, 50, 50)] tw9)
     = [(3, 0), (2, 0), (0, 0), (1, 0)]
   \<and> greedy_pass_by argsort_ties_last [(-25, -25, 50, 50)] tw9
     = Inr (\<lparr>next_object_id = 4,
             objects = [(0, (175, -25, 50, 50)), (1, (275, -25, 50, 50)),
                        (2, (-15, -25, 50, 50)), (3, (-25, -25, 50, 50))],
             disappeared = [(0, 0), (1, 0), (2, 0), (3, 0)],
             max_disappeared = 15, max_distance = 80\<rparr>, {3}, {0})"
    by (simp add: tw9_def run_update_by centroid_int euclid_gt_iff euclid_le_iff)
  show ?thesis
    by (rule conjI [OF conjunct1 [OF c] conjI [OF conjunct2 [OF c] l]])
qed

text \<open>
  C1 as stated fails in its last part. \<open>tw9\<close> is a default tracker after one call with
  four detections. Against one more detection its third and fourth object tie at
  distance 10. numpy's default sort orders the keys \<open>[200, 300, 10, 10]\<close> as
  \<open>[3, 2, 0, 1]\<close>; with that order the fourth object, registered last, takes the
  detection and the third one ages.
\<close>

theorem greedy_tie_counterexample:
  "update_by argsort_ties_last
      [(175, -25, 50, 50), (275, -25, 50, 50), (-15, -25, 50, 50), (-35, -25, 50, 50)]
      (CentroidTracker 15 80) = Inr tw9
   \<and> argsort_spec argsort_ties_last
   \<and> map min_list (distance_matrix [(-25, -25, 50, 50)] tw9) = [200, 300, 10, 10]
   \<and> argsort_ties_last [200, 300, 10, 10] = [3, 2, 0, 1]
   \<and> map argmin (distance_matrix [(-25, -25, 50, 50)] tw9) = [0, 0, 0, 0]
   \<and> fst (objects tw9 ! 2) < fst (objects tw9 ! 3)
   \<and> update_by argsort_ties_last [(-25, -25, 50, 50)] tw9
     = Inr \<lparr>next_object_id = 4,
            objects = [(0, (175, -25, 50, 50)), (1, (275, -25, 50, 50)),
                       (2, (-15, -25, 50, 50)), (3, (-25, -25, 50, 50))],
            disappeared = [(0, 1), (1, 1), (2, 1), (3, 0)],
            max_disappeared = 15, max_distance = 80\<rparr>"
proof -
  have a: "update_by argsort_ties_last
      [(175, -25, 50, 50), (275, -25, 50, 50), (-15, -25, 50, 50), (-35, -25, 50, 50)]
      (CentroidTracker 15 80) = Inr tw9"
    by (simp add: tw9_def CentroidTracker_def update_by_def register_def)
  have b: "map min_list (distance_matrix [(-25, -25, 50, 50)] tw9) = [200, 300, 10, 10]"
    by (simp add: tw9_def distance_matrix_def compute_centroids_def pairwise_distances_def
        centroid_int euclid_eq_num)
  have c: "argsort_ties_last [200, 300, 10, 10] = [3, 2, 0, 1]"
    by (simp add: argsort_ties_last_def upt_conv_Cons)
  have d: "map argmin (distance_matrix [(-25, -25, 50, 50)] tw9) = [0, 0, 0, 0]"
    by (simp add: tw9_def distance_matrix_def compute_centroids_def pairwise_distances_def)
  have e: "fst (objects tw9 ! 2) < fst (objects tw9 ! 3)"
    by (simp add: tw9_def)
  have f: "update_by argsort_ties_last [(-25, -25, 50, 50)] tw9
     = Inr \<lparr>next_object_id = 4,
            objects = [(0, (175, -25, 50, 50)), (1, (275, -25, 50, 50)),
                       (2, (-15, -25, 50, 50)), (3, (-25, -25, 50, 50))],
            disappeared = [(0, 1), (1, 1), (2, 1), (3, 0)],
            max_disappeared = 15, max_distance = 80\<rparr>"
    by (simp add: tw9_def run_update_by centroid_int euclid_gt_iff euclid_le_iff)
  show ?thesis
    using a argsort_spec_ties_last b c d e f by (intro conjI)
qed

subsection \<open>Failures of a tick\<close>

lemma predict_absent: "predict None fr roi = (''neutral'', 0)"
  by (simp add: predict_def)

lemma predict_raises: "f fr roi = Raises \<Longrightarrow> predict (Some f) fr roi = (''neutral'', 0)"
  by (simp add: predict_def)

lemma process_frame_cases:
  assumes inv: "tracker_inv (tracker vs)" and ev: "emotion_every vs \<noteq> 0"
  shows "(\<not> is_open vs \<and> process_frame vs = (vs, Inl (RuntimeError ''Cannot open camera'')))
     \<or> (is_open vs \<and> (\<not> fst (fst (read (cap vs))) \<or> snd (fst (read (cap vs))) = None)
         \<and> process_frame vs
            = (vs\<lparr>cap := snd (read (cap vs))\<rparr>, Inl (RuntimeError ''Failed to read frame from camera'')))
     \<or> (is_open vs \<and> fst (fst (read (cap vs)))
         \<and> (\<exists>fr vs' tracked. snd (fst (read (cap vs))) = Some fr
               \<and> tracker_inv tracked \<and> tracker vs' = tracked
               \<and> process_frame vs =
                   (vs', Inr (map (\<lambda>(person_id, x, y, w, h).
                     if (frame_count vs + 1) mod emotion_every vs = 0
                        \<and> 0 < roi_size fr (max x 0, max y 0, max w 1, max h 1)
                     then (person_id, (max x 0, max y 0, max w 1, max h 1),
                           predict (emotion vs) fr (max x 0, max y 0, max w 1, max h 1))
                     else (person_id, (max x 0, max y 0, max w 1, max h 1), ''neutral'', 0))
                (objects tracked)))))"
proof (cases "is_open vs")
  case False
  then show ?thesis using process_frame_closed [of vs] by simp
next
  case True
  obtain ret frame cap' where rd: "read (cap vs) = ((ret, frame), cap')"
    by (metis prod.collapse)
  show ?thesis
  proof (cases "\<not> ret \<or> frame = None")
    case bad: True
    show ?thesis
      using True bad process_frame_no_frame [OF True rd bad] rd by simp
  next
    case good: False
    then obtain fr where fr: "frame = Some fr" and ret: "ret" by auto
    have rd': "read (cap vs) = ((True, Some fr), cap')" using rd fr ret by simp
    from process_frame_ok [OF True rd' inv ev]
    obtain tracked vs' where ti: "tracker_inv tracked"
      and vs': "vs' = vs\<lparr>cap := cap', tracker := tracked, frame_count := frame_count vs + 1,
            logs := logs vs @
              map (\<lambda>(person_id, x, y, w, h).
                     (person_id, predict (emotion vs) fr (max x 0, max y 0, max w 1, max h 1)))
                (filter (\<lambda>(person_id, x, y, w, h).
                     (frame_count vs + 1) mod emotion_every vs = 0
                     \<and> 0 < roi_size fr (max x 0, max y 0, max w 1, max h 1)) (objects tracked)),
            latest_data :=
              map (\<lambda>(person_id, x, y, w, h).
                     if (frame_count vs + 1) mod emotion_every vs = 0
                        \<and> 0 < roi_size fr (max x 0, max y 0, max w 1, max h 1)
                     then (person_id, (max x 0, max y 0, max w 1, max h 1),
                           predict (emotion vs) fr (max x 0, max y 0, max w 1, max h 1))
                     else (person_id, (max x 0, max y 0, max w 1, max h 1), ''neutral'', 0))
                (objects tracked)\<rparr>"
      and pf: "process_frame vs =
                   (vs', Inr (map (\<lambda>(person_id, x, y, w, h).
                     if (frame_count vs + 1) mod emotion_every vs = 0
                        \<and> 0 < roi_size fr (max x 0, max y 0, max w 1, max h 1)
                     then (person_id, (max x 0, max y 0, max w 1, max h 1),
                           predict (emotion vs) fr (max x 0, max y 0, max w 1, max h 1))
                     else (person_id, (max x 0, max y 0, max w 1, max h 1), ''neutral'', 0))
                (objects tracked)))"
      by blast
    have tv: "tracker vs' = tracked" by (simp add: vs')
    have "\<exists>fr vs' tracked. snd (fst (read (cap vs))) = Some fr
               \<and> tracker_inv tracked \<and> tracker vs' = tracked
               \<and> process_frame vs =
                   (vs', Inr (map (\<lambda>(person_id, x, y, w, h).
                     if (frame_count vs + 1) mod emotion_every vs = 0
                        \<and> 0 < roi_size fr (max x 0, max y 0, max w 1, max h 1)
                     then (person_id, (max x 0, max y 0, max w 1, max h 1),
                           predict (emotion vs) fr (max x 0, max y 0, max w 1, max h 1))
                     else (person_id, (max x 0, max y 0, max w 1, max h 1), ''neutral'', 0))
                (objects tracked)))"
      using rd' ti tv pf by (intro exI [of _ fr] exI [of _ vs'] exI [of _ tracked]) simp
    then show ?thesis
      using True rd' by simp
  qed
qed

end
